theory Spec2Isabelle
  imports Complex_Main "HOL-Library.Multiset" "HOL-Library.Log_Nat"
begin

section \<open>Ordering containers (js/utils/helpers.js)\<close>

text \<open>
  The class \<open>PriorityQueue\<close> keeps one field, \<open>values\<close>, an array of objects
  \<open>{element, priority}\<close>. An entry is modelled as the pair (element, priority) and the queue
  as the list \<open>values\<close>. \<open>enqueue\<close> pushes and then calls \<open>sort\<close>, which is
  \<open>Array.prototype.sort\<close> with the comparator \<open>a.priority - b.priority\<close>; that sort is
  stable (ECMAScript 2019), so it is modelled by the stable insertion sort \<open>sort_key\<close>
  on the priority. \<open>dequeue\<close> is \<open>shift\<close>, which yields \<open>undefined\<close> (here \<open>None\<close>)
  on an empty array. Priorities are integers, as every caller passes them.
\<close>

type_synonym 'a pq_entry = "'a \<times> int"

definition element :: "'a pq_entry \<Rightarrow> 'a" where
  "element v = fst v"

definition priority :: "'a pq_entry \<Rightarrow> int" where
  "priority v = snd v"

definition pq_sort :: "'a pq_entry list \<Rightarrow> 'a pq_entry list" where
  "pq_sort vs = sort_key priority vs"

definition enqueue :: "'a \<Rightarrow> int \<Rightarrow> 'a pq_entry list \<Rightarrow> 'a pq_entry list" where
  "enqueue e p vs = pq_sort (vs @ [(e, p)])"

definition dequeue :: "'a pq_entry list \<Rightarrow> 'a pq_entry option \<times> 'a pq_entry list" where
  "dequeue vs = (case vs of [] \<Rightarrow> (None, []) | v # rest \<Rightarrow> (Some v, rest))"

definition isEmpty :: "'a list \<Rightarrow> bool" where
  "isEmpty vs = (length vs = 0)"

text \<open>A client of the queue: a sequence of calls, and the values its \<open>dequeue\<close> calls return.\<close>

datatype 'a pq_op = Enqueue 'a int | Dequeue

fun run_pq :: "'a pq_op list \<Rightarrow> 'a pq_entry list \<Rightarrow> 'a pq_entry option list" where
  "run_pq [] vs = []"
| "run_pq (Enqueue e p # ops) vs = run_pq ops (enqueue e p vs)"
| "run_pq (Dequeue # ops) vs = (case dequeue vs of (r, vs') \<Rightarrow> r # run_pq ops vs')"

text \<open>
  The specification's words, as a second model: the stored entries are kept in insertion
  order; \<open>dequeue\<close> removes and returns the entry of smallest priority, and among several of
  that priority the one inserted earliest.
\<close>

definition spec_earliest_min :: "'a pq_entry list \<Rightarrow> 'a pq_entry option" where
  "spec_earliest_min ins = find (\<lambda>v. list_all (\<lambda>w. priority v \<le> priority w) ins) ins"

definition spec_dequeue :: "'a pq_entry list \<Rightarrow> 'a pq_entry option \<times> 'a pq_entry list" where
  "spec_dequeue ins =
     (case spec_earliest_min ins of None \<Rightarrow> (None, ins) | Some v \<Rightarrow> (Some v, remove1 v ins))"

fun run_spec :: "'a pq_op list \<Rightarrow> 'a pq_entry list \<Rightarrow> 'a pq_entry option list" where
  "run_spec [] ins = []"
| "run_spec (Enqueue e p # ops) ins = run_spec ops (ins @ [(e, p)])"
| "run_spec (Dequeue # ops) ins = (case spec_dequeue ins of (r, ins') \<Rightarrow> r # run_spec ops ins')"

text \<open>The FIFO class \<open>Queue\<close>: the array \<open>items\<close>.\<close>

definition q_enqueue :: "'a \<Rightarrow> 'a list \<Rightarrow> 'a list" where
  "q_enqueue x items = items @ [x]"

definition q_dequeue :: "'a list \<Rightarrow> 'a option \<times> 'a list" where
  "q_dequeue items = (case items of [] \<Rightarrow> (None, []) | x # rest \<Rightarrow> (Some x, rest))"

definition q_size :: "'a list \<Rightarrow> nat" where
  "q_size items = length items"

section \<open>Playback (class AnimationController)\<close>

text \<open>
  The controller's fields as a record. \<open>onStepChange\<close> is a callback or \<open>null\<close>: the record
  says whether one is set, and \<open>notified\<close> lists the calls made to it, latest last.
  The asynchronous \<open>play\<close> loop is not part of the model.
\<close>

record 'step AnimationController =
  steps :: "'step list"
  currentStepIndex :: int
  isPlaying :: bool
  isPaused :: bool
  speed :: int
  onStepChange :: bool
  notified :: "('step option \<times> int) list"

definition newAnimationController :: "'step AnimationController" where
  "newAnimationController =
     \<lparr>steps = [], currentStepIndex = 0, isPlaying = False, isPaused = False, speed = 50,
      onStepChange = False, notified = []\<rparr>"

definition loadSteps :: "'step list \<Rightarrow> 'step AnimationController \<Rightarrow> 'step AnimationController" where
  "loadSteps ss c = c\<lparr>steps := ss, currentStepIndex := 0, isPlaying := False, isPaused := False\<rparr>"

text \<open>\<open>this.steps[this.currentStepIndex] || null\<close>: outside the array the read is \<open>undefined\<close>.\<close>

definition getCurrentStep :: "'step AnimationController \<Rightarrow> 'step option" where
  "getCurrentStep c =
     (if 0 \<le> currentStepIndex c \<and> currentStepIndex c < int (length (steps c))
      then Some (steps c ! nat (currentStepIndex c)) else None)"

definition notify :: "'step AnimationController \<Rightarrow> 'step AnimationController" where
  "notify c =
     (if onStepChange c then c\<lparr>notified := notified c @ [(getCurrentStep c, currentStepIndex c)]\<rparr>
      else c)"

definition stop :: "'step AnimationController \<Rightarrow> 'step AnimationController" where
  "stop c = c\<lparr>isPlaying := False, isPaused := False\<rparr>"

definition stepForward :: "'step AnimationController \<Rightarrow> 'step AnimationController" where
  "stepForward c =
     (if currentStepIndex c < int (length (steps c)) - 1
      then notify (c\<lparr>currentStepIndex := currentStepIndex c + 1\<rparr>) else c)"

definition stepBackward :: "'step AnimationController \<Rightarrow> 'step AnimationController" where
  "stepBackward c =
     (if currentStepIndex c > 0
      then notify (c\<lparr>currentStepIndex := currentStepIndex c - 1\<rparr>) else c)"

definition reset :: "'step AnimationController \<Rightarrow> 'step AnimationController" where
  "reset c = notify ((stop c)\<lparr>currentStepIndex := 0\<rparr>)"

definition setSpeed :: "int \<Rightarrow> 'step AnimationController \<Rightarrow> 'step AnimationController" where
  "setSpeed s c = c\<lparr>speed := max 1 (min 100 s)\<rparr>"

definition isAtEnd :: "'step AnimationController \<Rightarrow> bool" where
  "isAtEnd c = (currentStepIndex c \<ge> int (length (steps c)) - 1)"

definition isAtStart :: "'step AnimationController \<Rightarrow> bool" where
  "isAtStart c = (currentStepIndex c = 0)"

text \<open>
  A JavaScript number is an IEEE 754 double. The result of a division or a multiplication
  is the exact quotient or product rounded to 53 significant bits: for a value \<open>x\<close> with
  \<open>2\<^sup>e \<le> |x| < 2\<^sup>e\<^sup>+\<^sup>1\<close> (\<open>e\<close> is \<open>binade x\<close>) the doubles around \<open>x\<close> are the multiples
  of \<open>2\<^sup>e\<^sup>-\<^sup>5\<^sup>2\<close>, and \<open>to_double x\<close> is the nearest of them, on a tie the one with the even
  multiplier. \<open>currentStepIndex\<close> and \<open>steps.length - 1\<close> are integers below \<open>2\<^sup>3\<^sup>2\<close>, which
  a double holds exactly; their quotient and its product with 100 are far from overflow and
  underflow. \<open>Math.round\<close> gives the nearest integer, a half upwards.

  Division by zero: 0/0 is \<open>NaN\<close>, any other quotient by (positive) zero is infinite
  with the sign of the dividend; the multiplication by 100 and \<open>Math.round\<close> keep these.
\<close>

datatype js_number = NaN | PosInfinity | NegInfinity | Finite int

definition round_half_even :: "rat \<Rightarrow> int" where
  "round_half_even x =
     (let f = \<lfloor>x\<rfloor>; r = x - of_int f
      in if r < 1 / 2 then f else if r > 1 / 2 then f + 1 else if even f then f else f + 1)"

definition binade :: "rat \<Rightarrow> int" where
  "binade x =
     (case quotient_of \<bar>x\<bar> of (p, q) \<Rightarrow>
        let e = bitlen p - bitlen q
        in if \<bar>x\<bar> < 2 powi e then e - 1 else e)"

definition to_double :: "rat \<Rightarrow> rat" where
  "to_double x =
     (if x = 0 then 0
      else let ulp = 2 powi (binade x - 52)
           in of_int (round_half_even (x / ulp)) * ulp)"

definition math_round :: "rat \<Rightarrow> int" where
  "math_round x = \<lfloor>x + 1 / 2\<rfloor>"

text \<open>\<open>Math.round((a / b) * 100)\<close> for integers \<open>a\<close> and \<open>b\<close>.\<close>

definition js_div_times100_round :: "int \<Rightarrow> int \<Rightarrow> js_number" where
  "js_div_times100_round a b =
     (if b = 0 then (if a = 0 then NaN else if a > 0 then PosInfinity else NegInfinity)
      else Finite (math_round (to_double (to_double (of_int a / of_int b) * 100))))"

definition getProgress :: "'step AnimationController \<Rightarrow> js_number" where
  "getProgress c =
     (if length (steps c) = 0 then Finite 0
      else js_div_times100_round (currentStepIndex c) (int (length (steps c)) - 1))"

section \<open>Steps\<close>

text \<open>
  A step is an object with a \<open>type\<close> and the fields its kind of step carries; a field an
  object does not have is \<open>None\<close>. The \<open>type\<close> strings \<open>'init'\<close>, \<open>'early-exit'\<close>,
  \<open>'path-found'\<close>, \<open>'no-path'\<close>, \<open>'null-node'\<close>, ... are the constructors of
  \<open>step_type\<close>. The \<open>description\<close> text is left out; every number it prints is a field
  of the step or the size of one. The fields \<open>sorted\<close>, \<open>range\<close> and \<open>end\<close> are
  \<open>sorted_idx\<close>, \<open>range_lr\<close> and \<open>end_pos\<close> here.

  A grid position \<open>{row, col}\<close> is the pair (row, col); its key \<open>`${row},${col}`\<close> in a
  \<open>Set\<close> or \<open>Map\<close> is the pair itself. A JavaScript \<open>Set\<close> keeps insertion order: it
  is a list without repetition, and a snapshot \<open>new Set(visited)\<close> is that list. A tree
  node is \<open>null\<close> or an object \<open>{id, value, left, right}\<close> (selectors \<open>node_id\<close>,
  \<open>node_value\<close>); a call-stack label \<open>`preorder(${node.value})`\<close> is the pair of the
  function's name and the value. The \<open>node\<close> field of a step holds what the traversal was
  handed: the type \<open>'n step_of\<close> leaves open what that is, and \<open>step\<close> is the step whose
  \<open>node\<close> is a \<open>tnode\<close>.
\<close>

datatype step_type = Init | Pass | Compare | Swap | EarlyExit | Complete | Select | Shift | Insert
  | Divide | MergeStart | Place | MergeComplete | Visit | Discover | Backtrack
  | PathFound | Update | NoPath | NullNode | Recurse | Return

type_synonym pos = "int \<times> int"

definition row :: "pos \<Rightarrow> int" where
  "row p = fst p"

definition col :: "pos \<Rightarrow> int" where
  "col p = snd p"

datatype tnode = Null | Node (node_id: nat) (node_value: int) (left: tnode) (right: tnode)

record 'n step_of =
  type :: step_type
  array :: "int list option"
  indices :: "nat list option"
  sorted_idx :: "nat list option"
  range_lr :: "(nat \<times> nat) option"
  mid :: "nat option"
  depth :: "nat option"
  current :: "pos option"
  neighbor :: "pos option"
  parent :: "pos option"
  visited :: "pos list option"
  queueSize :: "nat option"
  start :: "pos option"
  end_pos :: "pos option"
  path :: "pos list option"
  distance :: "int option"
  gScore :: "int option"
  hScore :: "int option"
  fScore :: "int option"
  heuristic :: "int option"
  node :: "'n option"
  phase :: "string option"
  direction :: "string option"
  callStack :: "(string \<times> int) list option"

type_synonym step = "tnode step_of"

definition new_step :: "step_type \<Rightarrow> 'n step_of" where
  "new_step t = \<lparr>type = t, array = None, indices = None, sorted_idx = None, range_lr = None,
     mid = None, depth = None, current = None, neighbor = None, parent = None, visited = None,
     queueSize = None, start = None, end_pos = None, path = None, distance = None, gScore = None,
     hScore = None, fScore = None, heuristic = None, node = None, phase = None, direction = None,
     callStack = None\<rparr>"

section \<open>Sorting (js/algorithms/sorting.js)\<close>

text \<open>
  The working copy \<open>array\<close> is an integer list and the state of a generator the pair of
  \<open>array\<close> and \<open>steps\<close>. Indices are natural numbers; every read and write of the three
  sorts is inside the array by the bounds of its loop. \<open>Array.from({length: len}, (_, idx)
  => n - 1 - idx)\<close> is \<open>desc_from\<close>, \<open>Array.from({length: len}, (_, idx) => idx)\<close> is
  \<open>[0..<len]\<close>. A \<open>for\<close> loop over a fixed range of indices is a \<open>fold\<close> over that
  range; a loop with \<open>break\<close> and a \<open>while\<close> loop are recursive functions.
\<close>

type_synonym sort_state = "int list \<times> step list"

definition desc_from :: "nat \<Rightarrow> nat \<Rightarrow> nat list" where
  "desc_from n len = map (\<lambda>idx. n - 1 - idx) [0..<len]"

definition swap :: "'a list \<Rightarrow> nat \<Rightarrow> nat \<Rightarrow> 'a list" where
  "swap arr i j = arr[i := arr ! j, j := arr ! i]"

definition bubble_compare :: "nat \<Rightarrow> nat \<Rightarrow> nat \<Rightarrow> int list \<times> bool \<times> step list
    \<Rightarrow> int list \<times> bool \<times> step list" where
  "bubble_compare n i j st =
     (case st of (a, swapped, ss) \<Rightarrow>
        let ss1 = ss @ [(new_step Compare)\<lparr>array := Some a, indices := Some [j, j + 1],
                          sorted_idx := Some (desc_from n i)\<rparr>]
        in if a ! j > a ! (j + 1)
           then let a' = swap a j (j + 1)
                in (a', True, ss1 @ [(new_step Swap)\<lparr>array := Some a', indices := Some [j, j + 1],
                                       sorted_idx := Some (desc_from n i)\<rparr>])
           else (a, swapped, ss1))"

function bubble_passes :: "nat \<Rightarrow> nat \<Rightarrow> sort_state \<Rightarrow> sort_state" where
  "bubble_passes n i (a, ss) =
     (if int i < int n - 1
      then let ss1 = ss @ [(new_step Pass)\<lparr>array := Some a, sorted_idx := Some (desc_from n (n - i))\<rparr>]
           in (case fold (bubble_compare n i) [0..<n - i - 1] (a, False, ss1) of
                 (a', swapped, ss2) \<Rightarrow>
                   if \<not> swapped
                   then (a', ss2 @ [(new_step EarlyExit)\<lparr>array := Some a',
                                      sorted_idx := Some [0..<n]\<rparr>])
                   else bubble_passes n (i + 1) (a', ss2))
      else (a, ss))"
  by pat_completeness auto
termination
  by (relation "measure (\<lambda>(n, i, st). n - i)") auto

declare bubble_passes.simps [simp del]

definition bubbleSort :: "int list \<Rightarrow> step list" where
  "bubbleSort arr =
     (let array = arr; n = length array;
          steps = [(new_step Init)\<lparr>array := Some array\<rparr>]
      in case bubble_passes n 0 (array, steps) of
           (a, ss) \<Rightarrow> ss @ [(new_step Complete)\<lparr>array := Some a, sorted_idx := Some [0..<n]\<rparr>])"

function insertion_shift :: "int \<Rightarrow> nat \<Rightarrow> int \<Rightarrow> sort_state \<Rightarrow> int \<times> sort_state" where
  "insertion_shift key i j (a, ss) =
     (if j \<ge> 0 \<and> a ! nat j > key
      then let ss1 = ss @ [(new_step Compare)\<lparr>array := Some a, indices := Some [nat j, nat j + 1],
                            sorted_idx := Some [0..<i]\<rparr>];
               a' = a[nat j + 1 := a ! nat j];
               ss2 = ss1 @ [(new_step Shift)\<lparr>array := Some a', indices := Some [nat j, nat j + 1],
                              sorted_idx := Some [0..<i]\<rparr>]
           in insertion_shift key i (j - 1) (a', ss2)
      else (j, a, ss))"
  by pat_completeness auto
termination
  by (relation "measure (\<lambda>(key, i, j, st). nat (j + 1))") auto

definition insertion_insert :: "nat \<Rightarrow> sort_state \<Rightarrow> sort_state" where
  "insertion_insert i st =
     (case st of (a, ss) \<Rightarrow>
        let key = a ! i;
            ss1 = ss @ [(new_step Select)\<lparr>array := Some a, indices := Some [i],
                          sorted_idx := Some [0..<i]\<rparr>]
        in case insertion_shift key i (int i - 1) (a, ss1) of
             (j, a1, ss2) \<Rightarrow>
               let a2 = a1[nat (j + 1) := key]
               in (a2, ss2 @ [(new_step Insert)\<lparr>array := Some a2, indices := Some [nat (j + 1)],
                                sorted_idx := Some [0..<i + 1]\<rparr>]))"

definition insertionSort :: "int list \<Rightarrow> step list" where
  "insertionSort arr =
     (let array = arr; n = length array;
          steps = [(new_step Init)\<lparr>array := Some array\<rparr>]
      in case fold insertion_insert [1..<n] (array, steps) of
           (a, ss) \<Rightarrow> ss @ [(new_step Complete)\<lparr>array := Some a, sorted_idx := Some [0..<n]\<rparr>])"

text \<open>\<open>array.slice(b, e)\<close> for \<open>0 \<le> b \<le> e\<close>.\<close>

definition slice :: "'a list \<Rightarrow> nat \<Rightarrow> nat \<Rightarrow> 'a list" where
  "slice a b e = take (e - b) (drop b a)"

function merge_compare :: "int list \<Rightarrow> int list \<Rightarrow> nat \<Rightarrow> nat \<Rightarrow> nat \<times> nat \<times> nat \<times> sort_state
    \<Rightarrow> nat \<times> nat \<times> nat \<times> sort_state" where
  "merge_compare leftArr rightArr l m (i, j, k, a, ss) =
     (if i < length leftArr \<and> j < length rightArr
      then let ss1 = ss @ [(new_step Compare)\<lparr>array := Some a,
                            indices := Some [l + i, m + 1 + j]\<rparr>]
           in if leftArr ! i \<le> rightArr ! j
              then let a' = a[k := leftArr ! i]
                   in merge_compare leftArr rightArr l m
                        (i + 1, j, k + 1, a',
                         ss1 @ [(new_step Place)\<lparr>array := Some a', indices := Some [k]\<rparr>])
              else let a' = a[k := rightArr ! j]
                   in merge_compare leftArr rightArr l m
                        (i, j + 1, k + 1, a',
                         ss1 @ [(new_step Place)\<lparr>array := Some a', indices := Some [k]\<rparr>])
      else (i, j, k, a, ss))"
  by pat_completeness auto
termination
  by (relation "measure (\<lambda>(leftArr, rightArr, l, m, i, j, k, st).
        (length leftArr - i) + (length rightArr - j))") auto

function merge_copy :: "int list \<Rightarrow> nat \<times> nat \<times> sort_state \<Rightarrow> nat \<times> nat \<times> sort_state" where
  "merge_copy src (i, k, a, ss) =
     (if i < length src
      then let a' = a[k := src ! i]
           in merge_copy src
                (i + 1, k + 1, a', ss @ [(new_step Place)\<lparr>array := Some a', indices := Some [k]\<rparr>])
      else (i, k, a, ss))"
  by pat_completeness auto
termination
  by (relation "measure (\<lambda>(src, i, k, st). length src - i)") auto

definition merge :: "nat \<Rightarrow> nat \<Rightarrow> nat \<Rightarrow> nat \<Rightarrow> sort_state \<Rightarrow> sort_state" where
  "merge l m r d st =
     (case st of (a, ss) \<Rightarrow>
        let leftArr = slice a l (m + 1);
            rightArr = slice a (m + 1) (r + 1);
            ss1 = ss @ [(new_step MergeStart)\<lparr>array := Some a, range_lr := Some (l, r),
                          depth := Some d\<rparr>]
        in case merge_compare leftArr rightArr l m (0, 0, l, a, ss1) of
             (i, j, k, st1) \<Rightarrow>
               (case merge_copy leftArr (i, k, st1) of
                  (i2, k2, st2) \<Rightarrow>
                    (case merge_copy rightArr (j, k2, st2) of
                       (j3, k3, a3, ss3) \<Rightarrow>
                         (a3, ss3 @ [(new_step MergeComplete)\<lparr>array := Some a3,
                                       range_lr := Some (l, r)\<rparr>]))))"

function mergeSortHelper :: "nat \<Rightarrow> nat \<Rightarrow> nat \<Rightarrow> sort_state \<Rightarrow> sort_state" where
  "mergeSortHelper l r d (a, ss) =
     (if l \<ge> r then (a, ss)
      else let m = (l + r) div 2;
               ss1 = ss @ [(new_step Divide)\<lparr>array := Some a, range_lr := Some (l, r),
                             mid := Some m, depth := Some d\<rparr>]
           in merge l m r d
                (mergeSortHelper (m + 1) r (d + 1) (mergeSortHelper l m (d + 1) (a, ss1))))"
  by pat_completeness auto
termination
  by (relation "measure (\<lambda>(l, r, d, st). r - l)") auto

text \<open>
  The top call is \<open>mergeSortHelper(array, 0, array.length - 1)\<close>. For the empty array the
  right end is -1 in the source and 0 here; \<open>left >= right\<close> holds in both, and the helper
  returns at once.
\<close>

definition mergeSort :: "int list \<Rightarrow> step list" where
  "mergeSort arr =
     (let array = arr;
          steps = [(new_step Init)\<lparr>array := Some array\<rparr>]
      in case mergeSortHelper 0 (length array - 1) 0 (array, steps) of
           (a, ss) \<Rightarrow> ss @ [(new_step Complete)\<lparr>array := Some a,
                               sorted_idx := Some [0..<length a]\<rparr>])"

section \<open>Grid primitives (js/utils/helpers.js)\<close>

definition manhattanDistance :: "pos \<Rightarrow> pos \<Rightarrow> int" where
  "manhattanDistance nodeA nodeB = \<bar>row nodeA - row nodeB\<bar> + \<bar>col nodeA - col nodeB\<bar>"

definition directions :: "(int \<times> int) list" where
  "directions = [(-1, 0), (1, 0), (0, -1), (0, 1)]"

definition getNeighbors :: "int \<Rightarrow> int \<Rightarrow> int \<Rightarrow> int \<Rightarrow> pos list" where
  "getNeighbors r c rows cols =
     filter (\<lambda>(newRow, newCol). newRow \<ge> 0 \<and> newRow < rows \<and> newCol \<ge> 0 \<and> newCol < cols)
       (map (\<lambda>(dr, dc). (r + dr, c + dc)) directions)"

text \<open>\<open>Set.add\<close> and \<open>Set.has\<close> on the insertion-ordered list of a \<open>Set\<close>.\<close>

definition set_add :: "'a \<Rightarrow> 'a list \<Rightarrow> 'a list" where
  "set_add x xs = (if x \<in> set xs then xs else xs @ [x])"

definition set_has :: "'a \<Rightarrow> 'a list \<Rightarrow> bool" where
  "set_has x xs = (x \<in> set xs)"

text \<open>
  \<open>reconstructPath\<close> walks the parent map from \<open>end\<close> and stops at a position without a
  parent, or at one whose parent is \<open>start\<close>. On a parent map with a cycle the loop does
  not end; the value is \<open>None\<close> then.
\<close>

partial_function (option) reconstruct_from :: "(pos \<rightharpoonup> pos) \<Rightarrow> pos \<Rightarrow> pos \<Rightarrow> pos list
    \<Rightarrow> pos list option" where
  "reconstruct_from parentMap start_p cur path_acc =
     (case parentMap cur of
        None \<Rightarrow> Some (cur # path_acc)
      | Some nxt \<Rightarrow>
          if row nxt = row start_p \<and> col nxt = col start_p
          then Some (start_p # cur # path_acc)
          else reconstruct_from parentMap start_p nxt (cur # path_acc))"

declare reconstruct_from.simps [code]

definition reconstructPath :: "(pos \<rightharpoonup> pos) \<Rightarrow> pos \<Rightarrow> pos \<Rightarrow> pos list option" where
  "reconstructPath parentMap start_p end_p = reconstruct_from parentMap start_p end_p []"

section \<open>Recursion on trees (js/algorithms/recursion.js)\<close>

text \<open>
  The state of a traversal is the pair of \<open>callStack\<close> and \<open>steps\<close>; \<open>callStack.pop()\<close>
  is \<open>butlast\<close>.
\<close>

type_synonym tree_state = "(string \<times> int) list \<times> step list"

definition null_node_step :: "(string \<times> int) list \<Rightarrow> nat \<Rightarrow> 'n step_of" where
  "null_node_step cs d = (new_step NullNode)\<lparr>callStack := Some cs, depth := Some d\<rparr>"

definition visit_node_step :: "'n \<Rightarrow> (string \<times> int) list \<Rightarrow> nat \<Rightarrow> 'n step_of" where
  "visit_node_step n cs d =
     (new_step Visit)\<lparr>node := Some n, phase := Some ''root'', callStack := Some cs, depth := Some d\<rparr>"

definition recurse_step :: "'n \<Rightarrow> string \<Rightarrow> (string \<times> int) list \<Rightarrow> 'n step_of" where
  "recurse_step n dir cs =
     (new_step Recurse)\<lparr>node := Some n, direction := Some dir, callStack := Some cs\<rparr>"

definition return_step :: "'n \<Rightarrow> (string \<times> int) list \<Rightarrow> 'n step_of" where
  "return_step n cs = (new_step Return)\<lparr>node := Some n, callStack := Some cs\<rparr>"

fun preorder_traverse :: "tnode \<Rightarrow> nat \<Rightarrow> tree_state \<Rightarrow> tree_state" where
  "preorder_traverse Null d (cs, ss) = (cs, ss @ [null_node_step cs d])"
| "preorder_traverse (Node i v l r) d (cs, ss) =
     (let cs1 = cs @ [(''preorder'', v)];
          ss1 = ss @ [visit_node_step (Node i v l r) cs1 d];
          ss2 = ss1 @ [recurse_step (Node i v l r) ''left'' cs1]
      in case preorder_traverse l (d + 1) (cs1, ss2) of
           (cs3, ss3) \<Rightarrow>
             (case preorder_traverse r (d + 1)
                     (cs3, ss3 @ [recurse_step (Node i v l r) ''right'' cs3]) of
                (cs4, ss4) \<Rightarrow>
                  let cs5 = butlast cs4
                  in (cs5, ss4 @ [return_step (Node i v l r) cs5])))"

fun inorder_traverse :: "tnode \<Rightarrow> nat \<Rightarrow> tree_state \<Rightarrow> tree_state" where
  "inorder_traverse Null d (cs, ss) = (cs, ss @ [null_node_step cs d])"
| "inorder_traverse (Node i v l r) d (cs, ss) =
     (let cs1 = cs @ [(''inorder'', v)];
          ss1 = ss @ [recurse_step (Node i v l r) ''left'' cs1]
      in case inorder_traverse l (d + 1) (cs1, ss1) of
           (cs2, ss2) \<Rightarrow>
             (let ss3 = ss2 @ [visit_node_step (Node i v l r) cs2 d];
                  ss4 = ss3 @ [recurse_step (Node i v l r) ''right'' cs2]
              in case inorder_traverse r (d + 1) (cs2, ss4) of
                   (cs5, ss5) \<Rightarrow>
                     let cs6 = butlast cs5
                     in (cs6, ss5 @ [return_step (Node i v l r) cs6])))"

fun postorder_traverse :: "tnode \<Rightarrow> nat \<Rightarrow> tree_state \<Rightarrow> tree_state" where
  "postorder_traverse Null d (cs, ss) = (cs, ss @ [null_node_step cs d])"
| "postorder_traverse (Node i v l r) d (cs, ss) =
     (let cs1 = cs @ [(''postorder'', v)];
          ss1 = ss @ [recurse_step (Node i v l r) ''left'' cs1]
      in case postorder_traverse l (d + 1) (cs1, ss1) of
           (cs2, ss2) \<Rightarrow>
             (case postorder_traverse r (d + 1)
                     (cs2, ss2 @ [recurse_step (Node i v l r) ''right'' cs2]) of
                (cs3, ss3) \<Rightarrow>
                  let ss4 = ss3 @ [visit_node_step (Node i v l r) cs3 d];
                      cs5 = butlast cs3
                  in (cs5, ss4 @ [return_step (Node i v l r) cs5])))"

definition preorderTraversal :: "tnode \<Rightarrow> step list" where
  "preorderTraversal root_node = snd (preorder_traverse root_node 0 ([], [new_step Init])) @ [new_step Complete]"

definition inorderTraversal :: "tnode \<Rightarrow> step list" where
  "inorderTraversal root_node = snd (inorder_traverse root_node 0 ([], [new_step Init])) @ [new_step Complete]"

definition postorderTraversal :: "tnode \<Rightarrow> step list" where
  "postorderTraversal root_node = snd (postorder_traverse root_node 0 ([], [new_step Init])) @ [new_step Complete]"

subsection \<open>Trees as objects on the heap\<close>












section \<open>Graph traversal (bfs and dfs)\<close>

text \<open>
  \<open>walls\<close> is only asked for membership: it is a set of positions. The cells that
  \<open>getNeighbors\<close> can return are those of \<open>grid_cells\<close>; they bound the loops.
\<close>

definition grid_cells :: "int \<Rightarrow> int \<Rightarrow> pos set" where
  "grid_cells rows cols = {0..<rows} \<times> {0..<cols}"

lemma finite_grid_cells [simp]: "finite (grid_cells rows cols)"
  by (simp add: grid_cells_def)

lemma getNeighbors_in_grid: "set (getNeighbors r c rows cols) \<subseteq> grid_cells rows cols"
  by (auto simp: getNeighbors_def grid_cells_def)

type_synonym bfs_state = "pos list \<times> pos list \<times> step list"

definition bfs_discover :: "pos set \<Rightarrow> pos \<Rightarrow> pos \<Rightarrow> bfs_state \<Rightarrow> bfs_state" where
  "bfs_discover walls cur nb st =
     (case st of (queue, vis, ss) \<Rightarrow>
        if \<not> set_has nb vis \<and> nb \<notin> walls
        then let vis' = set_add nb vis;
                 queue' = q_enqueue nb queue
             in (queue', vis',
                 ss @ [(new_step Discover)\<lparr>current := Some cur, neighbor := Some nb,
                         visited := Some vis', queueSize := Some (q_size queue')\<rparr>])
        else st)"

subsection \<open>The breadth-first loop\<close>

lemma bfs_discover_measure:
  "set nbs \<subseteq> grid_cells rows cols \<Longrightarrow>
   (case fold (bfs_discover walls cur) nbs (queue, vis, ss) of
      (queue', vis', ss') \<Rightarrow> card (grid_cells rows cols - set vis') + length queue')
   \<le> card (grid_cells rows cols - set vis) + length queue"
proof (induction nbs arbitrary: queue vis ss)
  case Nil
  then show ?case by simp
next
  case (Cons nb nbs)
  show ?case
  proof (cases "\<not> set_has nb vis \<and> nb \<notin> walls")
    case False
    then have "bfs_discover walls cur nb (queue, vis, ss) = (queue, vis, ss)"
      by (auto simp: bfs_discover_def)
    then show ?thesis using Cons by simp
  next
    case True
    let ?ss' = "ss @ [(new_step Discover)\<lparr>current := Some cur, neighbor := Some nb,
        visited := Some (vis @ [nb]), queueSize := Some (Suc (length queue))\<rparr>]"
    have step: "bfs_discover walls cur nb (queue, vis, ss) = (queue @ [nb], vis @ [nb], ?ss')"
      using True by (simp add: bfs_discover_def set_has_def set_add_def q_enqueue_def q_size_def Let_def)
    have nbin: "nb \<in> grid_cells rows cols - set vis" using True Cons.prems by (simp add: set_has_def)
    have "grid_cells rows cols - set (vis @ [nb]) = (grid_cells rows cols - set vis) - {nb}"
      by auto
    then have "card (grid_cells rows cols - set (vis @ [nb])) = card (grid_cells rows cols - set vis) - 1"
      using nbin by (simp add: card_Diff_singleton)
    moreover have "card (grid_cells rows cols - set vis) > 0"
      using nbin by (metis card_gt_0_iff empty_iff finite_Diff finite_grid_cells)
    ultimately have "card (grid_cells rows cols - set (vis @ [nb])) + length (queue @ [nb])
        = card (grid_cells rows cols - set vis) + length queue"
      by simp
    moreover have "(case fold (bfs_discover walls cur) nbs (queue @ [nb], vis @ [nb], ?ss') of
      (queue', vis', ss') \<Rightarrow> card (grid_cells rows cols - set vis') + length queue')
      \<le> card (grid_cells rows cols - set (vis @ [nb])) + length (queue @ [nb])"
      using Cons.IH[of "queue @ [nb]" "vis @ [nb]" ?ss'] Cons.prems by simp
    ultimately show ?thesis using step by simp
  qed
qed

text \<open>
  The loop \<open>while (!queue.isEmpty())\<close> with \<open>queue.dequeue()\<close> first in its body: on the
  empty list the loop is over, otherwise the head is dequeued.
\<close>

function bfs_loop :: "int \<Rightarrow> int \<Rightarrow> pos set \<Rightarrow> bfs_state \<Rightarrow> bfs_state" where
  "bfs_loop rows cols walls (queue, vis, ss) =
     (case queue of
        [] \<Rightarrow> (queue, vis, ss)
      | cur # rest \<Rightarrow>
          bfs_loop rows cols walls
            (fold (bfs_discover walls cur) (getNeighbors (row cur) (col cur) rows cols)
               (rest, vis, ss @ [(new_step Visit)\<lparr>current := Some cur, visited := Some vis\<rparr>])))"
  by pat_completeness auto
termination
proof (relation "measure (\<lambda>(rows, cols, walls, queue, vis, ss).
          card (grid_cells rows cols - set vis) + length queue)", goal_cases)
  case 1
  show ?case by simp
next
  case (2 rows cols walls queue vis ss cur rest)
  let ?ss1 = "ss @ [(new_step Visit)\<lparr>current := Some cur, visited := Some vis\<rparr>]"
  obtain q' v' s' where f: "fold (bfs_discover walls cur)
      (getNeighbors (row cur) (col cur) rows cols) (rest, vis, ?ss1) = (q', v', s')"
    by (metis prod_cases3)
  have "card (grid_cells rows cols - set v') + length q'
      \<le> card (grid_cells rows cols - set vis) + length rest"
    using bfs_discover_measure[OF getNeighbors_in_grid, where walls=walls and cur=cur
        and queue=rest and vis=vis and rows=rows and cols=cols and ss="?ss1"
        and ?r1="row cur" and ?c1="col cur"]
    by (simp add: f)
  then show ?case by (simp add: 2 f)
qed

definition bfs :: "int \<Rightarrow> int \<Rightarrow> pos \<Rightarrow> pos set \<Rightarrow> step list" where
  "bfs rows cols start_p walls =
     (let queue = q_enqueue start_p [];
          vis = set_add start_p [];
          ss = [(new_step Init)\<lparr>current := Some start_p, visited := Some vis\<rparr>]
      in case bfs_loop rows cols walls (queue, vis, ss) of
           (queue', vis', ss') \<Rightarrow> ss' @ [(new_step Complete)\<lparr>visited := Some vis'\<rparr>])"

subsection \<open>The depth-first recursion\<close>

text \<open>
  \<open>dfsHelper\<close> and the \<open>for\<close> loop over the neighbours inside it, which calls
  \<open>dfsHelper\<close> again; the closure's \<open>visited\<close> and \<open>steps\<close> are the state passed
  along.
\<close>

type_synonym dfs_state = "pos list \<times> step list"

function (domintros) dfsHelper :: "int \<Rightarrow> int \<Rightarrow> pos set \<Rightarrow> pos \<Rightarrow> nat \<Rightarrow> dfs_state \<Rightarrow> dfs_state"
  and dfs_neighbors :: "int \<Rightarrow> int \<Rightarrow> pos set \<Rightarrow> pos \<Rightarrow> nat \<Rightarrow> pos list \<Rightarrow> dfs_state \<Rightarrow> dfs_state"
  where
  "dfsHelper rows cols walls nd d (vis, ss) =
     (if set_has nd vis \<or> nd \<in> walls then (vis, ss)
      else let vis1 = set_add nd vis;
               ss1 = ss @ [(new_step Visit)\<lparr>current := Some nd, visited := Some vis1,
                             depth := Some d\<rparr>]
           in dfs_neighbors rows cols walls nd d
                (getNeighbors (row nd) (col nd) rows cols) (vis1, ss1))"
| "dfs_neighbors rows cols walls nd d [] (vis, ss) = (vis, ss)"
| "dfs_neighbors rows cols walls nd d (nb # rest) (vis, ss) =
     (if \<not> set_has nb vis \<and> nb \<notin> walls
      then let ss1 = ss @ [(new_step Discover)\<lparr>current := Some nd, neighbor := Some nb,
                             visited := Some vis, depth := Some (d + 1)\<rparr>]
           in case dfsHelper rows cols walls nb (d + 1) (vis, ss1) of
                (vis2, ss2) \<Rightarrow>
                  dfs_neighbors rows cols walls nd d rest
                    (vis2, ss2 @ [(new_step Backtrack)\<lparr>current := Some nb, parent := Some nd,
                                    visited := Some vis2\<rparr>])
      else dfs_neighbors rows cols walls nd d rest (vis, ss))"
  by pat_completeness auto

lemma dfs_visited_grows:
  "dfsHelper_dfs_neighbors_dom (Inl (rows, cols, walls, nd, d, st))
     \<Longrightarrow> set (fst st) \<subseteq> set (fst (dfsHelper rows cols walls nd d st))"
  "dfsHelper_dfs_neighbors_dom (Inr (rows, cols, walls, nd, d, nbs, st))
     \<Longrightarrow> set (fst st) \<subseteq> set (fst (dfs_neighbors rows cols walls nd d nbs st))"
proof (induct rows cols walls nd d st and rows cols walls nd d nbs st rule: dfsHelper_dfs_neighbors.pinduct)
  case (1 rows cols walls nd d vis ss)
  then show ?case
    by (auto simp: dfsHelper.psimps Let_def set_add_def set_has_def)
next
  case (2 rows cols walls nd d vis ss)
  then show ?case by (simp add: dfs_neighbors.psimps)
next
  case (3 rows cols walls nd d nb rest vis ss)
  show ?case
  proof (cases "\<not> set_has nb vis \<and> nb \<notin> walls")
    case False
    then show ?thesis using 3(1) 3(4)[OF False] by (auto simp: dfs_neighbors.psimps)
  next
    case True
    let ?ss1 = "ss @ [(new_step Discover)\<lparr>current := Some nd, neighbor := Some nb,
                             visited := Some vis, depth := Some (d + 1)\<rparr>]"
    obtain vis2 ss2 where h: "dfsHelper rows cols walls nb (d + 1) (vis, ?ss1) = (vis2, ss2)"
      by (metis surj_pair)
    have a: "set vis \<subseteq> set vis2" using 3(2)[OF True refl] h by simp
    have b: "set vis2 \<subseteq> set (fst (dfs_neighbors rows cols walls nd d rest
        (vis2, ss2 @ [(new_step Backtrack)\<lparr>current := Some nb, parent := Some nd,
                                    visited := Some vis2\<rparr>])))"
      using 3(3)[OF True refl h[symmetric]] by simp
    show ?thesis using a b True 3(1) h by (simp add: dfs_neighbors.psimps Let_def)
  qed
qed

termination dfsHelper
proof (relation "inv_image (less_than <*lex*> less_than)
    (\<lambda>x. case x of
        Inl (rows, cols, walls, nd, d, vis, ss) \<Rightarrow>
          (card ((grid_cells rows cols \<union> {nd}) - set vis), 0)
      | Inr (rows, cols, walls, nd, d, nbs, vis, ss) \<Rightarrow>
          (card ((grid_cells rows cols \<union> set nbs) - set vis), Suc (length nbs)))", goal_cases)
  case 1
  show ?case by (intro wf_inv_image wf_lex_prod wf_less_than)
next
  case (2 rows cols walls nd d vis ss x xa)
  have sub: "(grid_cells rows cols \<union> set (getNeighbors (row nd) (col nd) rows cols)) - set x
      \<subseteq> ((grid_cells rows cols \<union> {nd}) - set vis) - {nd}"
    using getNeighbors_in_grid[of "row nd" "col nd" rows cols] 2 by (auto simp: set_add_def set_has_def)
  have "nd \<in> (grid_cells rows cols \<union> {nd}) - set vis" using 2 by (simp add: set_has_def)
  then have "card (((grid_cells rows cols \<union> {nd}) - set vis) - {nd})
      < card ((grid_cells rows cols \<union> {nd}) - set vis)"
    by (intro card_Diff1_less) simp_all
  moreover have "card ((grid_cells rows cols \<union> set (getNeighbors (row nd) (col nd) rows cols)) - set x)
      \<le> card (((grid_cells rows cols \<union> {nd}) - set vis) - {nd})"
    by (intro card_mono sub) simp
  ultimately show ?case by simp
next
  case (3 rows cols walls nd d nb rest vis ss x)
  have "card ((grid_cells rows cols \<union> {nb}) - set vis)
      \<le> card ((grid_cells rows cols \<union> set (nb # rest)) - set vis)"
    by (intro card_mono) auto
  then show ?case by auto
next
  case (4 rows cols walls nd d nb rest vis ss x xa y)
  have "set vis \<subseteq> set xa" using dfs_visited_grows(1)[OF 4(4)] 4(3)[symmetric] by simp
  then have "card ((grid_cells rows cols \<union> set rest) - set xa)
      \<le> card ((grid_cells rows cols \<union> set (nb # rest)) - set vis)"
    by (intro card_mono) auto
  then show ?case by auto
next
  case (5 rows cols walls nd d nb rest vis ss)
  have "card ((grid_cells rows cols \<union> set rest) - set vis)
      \<le> card ((grid_cells rows cols \<union> set (nb # rest)) - set vis)"
    by (intro card_mono) auto
  then show ?case by auto
qed

definition dfs :: "int \<Rightarrow> int \<Rightarrow> pos \<Rightarrow> pos set \<Rightarrow> step list" where
  "dfs rows cols start_p walls =
     (let vis = [];
          ss = [(new_step Init)\<lparr>current := Some start_p, visited := Some vis\<rparr>]
      in case dfsHelper rows cols walls start_p 0 (vis, ss) of
           (vis', ss') \<Rightarrow> ss' @ [(new_step Complete)\<lparr>visited := Some vis'\<rparr>])"

section \<open>Pathfinding (dijkstra and aStar)\<close>

text \<open>
  The working state of \<open>dijkstra\<close>: the maps \<open>distances\<close> and \<open>previous\<close>, the set
  \<open>visited\<close>, the priority queue \<open>pq\<close> and \<open>steps\<close>. \<open>distances.get(key) ?? Infinity\<close>
  is the lookup in the map, with \<open>None\<close> for \<open>Infinity\<close>.
\<close>

record dijkstra_state =
  d_distances :: "pos \<rightharpoonup> int"
  d_previous :: "pos \<rightharpoonup> pos"
  d_visited :: "pos list"
  d_pq :: "pos pq_entry list"
  d_steps :: "step list"

definition dijkstra_relax :: "pos set \<Rightarrow> pos \<Rightarrow> int \<Rightarrow> pos \<Rightarrow> dijkstra_state \<Rightarrow> dijkstra_state" where
  "dijkstra_relax walls cur currentDist nb s =
     (if nb \<in> walls \<or> set_has nb (d_visited s) then s
      else let newDist = currentDist + 1
           in if (case d_distances s nb of None \<Rightarrow> True | Some oldDist \<Rightarrow> newDist < oldDist)
              then s\<lparr>d_distances := (d_distances s)(nb \<mapsto> newDist),
                     d_previous := (d_previous s)(nb \<mapsto> cur),
                     d_pq := enqueue nb newDist (d_pq s),
                     d_steps := d_steps s @ [(new_step Update)\<lparr>current := Some cur,
                                  neighbor := Some nb, distance := Some newDist,
                                  visited := Some (d_visited s)\<rparr>]\<rparr>
              else s)"

lemma set_enqueue [simp]: "set (enqueue e p vs) = insert (e, p) (set vs)"
  by (simp add: enqueue_def pq_sort_def)

lemma length_enqueue [simp]: "length (enqueue e p vs) = Suc (length vs)"
  by (simp add: enqueue_def pq_sort_def)

lemma dijkstra_relax_fold_frame:
  "d_visited (fold (dijkstra_relax walls cur cd) nbs s) = d_visited s
   \<and> fst ` set (d_pq (fold (dijkstra_relax walls cur cd) nbs s)) \<subseteq> fst ` set (d_pq s) \<union> set nbs"
proof (induction nbs arbitrary: s)
  case Nil
  show ?case by simp
next
  case (Cons nb nbs)
  let ?s1 = "dijkstra_relax walls cur cd nb s"
  have v: "d_visited ?s1 = d_visited s"
    and q: "fst ` set (d_pq ?s1) \<subseteq> fst ` set (d_pq s) \<union> {nb}"
    by (auto simp: dijkstra_relax_def Let_def)
  have "fst ` set (d_pq (fold (dijkstra_relax walls cur cd) nbs ?s1))
      \<subseteq> fst ` set (d_pq ?s1) \<union> set nbs"
    using Cons[of ?s1] by blast
  also have "\<dots> \<subseteq> fst ` set (d_pq s) \<union> set (nb # nbs)"
    using q by auto
  finally show ?case using Cons[of ?s1] v by simp
qed

definition pending_cells :: "int \<Rightarrow> int \<Rightarrow> pos pq_entry list \<Rightarrow> pos list \<Rightarrow> pos set" where
  "pending_cells rows cols q vis = (grid_cells rows cols \<union> fst ` set q) - set vis"

lemma finite_pending_cells [simp]: "finite (pending_cells rows cols q vis)"
  by (simp add: pending_cells_def)

lemma pending_cells_visit:
  assumes "q = (cur, p) # rest" "cur \<notin> set vis"
    and "fst ` set q' \<subseteq> fst ` set rest \<union> set (getNeighbors r c rows cols)"
  shows "card (pending_cells rows cols q' (set_add cur vis)) < card (pending_cells rows cols q vis)"
proof -
  have "pending_cells rows cols q' (set_add cur vis) \<subseteq> pending_cells rows cols q vis - {cur}"
    using assms getNeighbors_in_grid[of r c rows cols]
    by (auto simp: pending_cells_def set_add_def)
  then have "card (pending_cells rows cols q' (set_add cur vis)) \<le> card (pending_cells rows cols q vis - {cur})"
    by (intro card_mono) simp_all
  moreover have "cur \<in> pending_cells rows cols q vis" using assms by (simp add: pending_cells_def)
  then have "card (pending_cells rows cols q vis - {cur}) < card (pending_cells rows cols q vis)"
    by (intro card_Diff1_less) simp_all
  ultimately show ?thesis by simp
qed

lemma pending_cells_skip:
  "card (pending_cells rows cols rest vis) \<le> card (pending_cells rows cols (v # rest) vis)"
  by (intro card_mono) (auto simp: pending_cells_def)

function dijkstra_loop :: "int \<Rightarrow> int \<Rightarrow> pos \<Rightarrow> pos \<Rightarrow> pos set \<Rightarrow> dijkstra_state
    \<Rightarrow> step list option" where
  "dijkstra_loop rows cols start_p end_p walls s =
     (case d_pq s of
        [] \<Rightarrow> Some (d_steps s @ [(new_step NoPath)\<lparr>visited := Some (d_visited s)\<rparr>])
      | v # rest \<Rightarrow>
          if set_has (element v) (d_visited s)
          then dijkstra_loop rows cols start_p end_p walls (s\<lparr>d_pq := rest\<rparr>)
          else let cur = element v; currentDist = priority v;
                   vis1 = set_add cur (d_visited s);
                   ss1 = d_steps s @ [(new_step Visit)\<lparr>current := Some cur,
                           distance := Some currentDist, visited := Some vis1\<rparr>]
               in if row cur = row end_p \<and> col cur = col end_p
                  then (case reconstructPath (d_previous s) start_p end_p of
                          None \<Rightarrow> None
                        | Some p \<Rightarrow>
                            Some (ss1 @ [(new_step PathFound)\<lparr>path := Some p,
                                    distance := Some currentDist, visited := Some vis1\<rparr>]))
                  else dijkstra_loop rows cols start_p end_p walls
                         (fold (dijkstra_relax walls cur currentDist)
                            (getNeighbors (row cur) (col cur) rows cols)
                            (s\<lparr>d_pq := rest, d_visited := vis1, d_steps := ss1\<rparr>)))"
  by pat_completeness auto
termination
proof (relation "inv_image (less_than <*lex*> less_than)
    (\<lambda>(rows, cols, start_p, end_p, walls, s).
        (card (pending_cells rows cols (d_pq s) (d_visited s)), length (d_pq s)))", goal_cases)
  case 1
  show ?case by (intro wf_inv_image wf_lex_prod wf_less_than)
next
  case (2 rows cols start_p end_p walls s v rest)
  then show ?case using pending_cells_skip[of rows cols rest "d_visited s" v]
    by (auto simp: le_less)
next
  case (3 rows cols start_p end_p walls s v rest cur currentDist vis1 ss1)
  let ?s' = "fold (dijkstra_relax walls cur currentDist) (getNeighbors (row cur) (col cur) rows cols)
                            (s\<lparr>d_pq := rest, d_visited := vis1, d_steps := ss1\<rparr>)"
  have fr: "d_visited ?s' = vis1"
    "fst ` set (d_pq ?s') \<subseteq> fst ` set rest \<union> set (getNeighbors (row cur) (col cur) rows cols)"
    using dijkstra_relax_fold_frame[of walls cur currentDist "getNeighbors (row cur) (col cur) rows cols"
        "s\<lparr>d_pq := rest, d_visited := vis1, d_steps := ss1\<rparr>"] by simp_all
  have "d_pq s = (cur, priority v) # rest" using 3 by (simp add: element_def priority_def)
  from pending_cells_visit[OF this _ fr(2)] 3 fr(1)
  show ?case by (simp add: set_has_def)
qed

declare dijkstra_loop.simps [simp del]

definition dijkstra :: "int \<Rightarrow> int \<Rightarrow> pos \<Rightarrow> pos \<Rightarrow> pos set \<Rightarrow> step list option" where
  "dijkstra rows cols start_p end_p walls =
     dijkstra_loop rows cols start_p end_p walls
       \<lparr>d_distances = [start_p \<mapsto> 0], d_previous = Map.empty, d_visited = [],
        d_pq = enqueue start_p 0 [],
        d_steps = [(new_step Init)\<lparr>start := Some start_p, end_pos := Some end_p\<rparr>]\<rparr>"


text \<open>
  The working state of \<open>aStar\<close>. \<open>gScore.get(currentKey)\<close> is \<open>undefined\<close> for a key the
  map does not have: then \<open>g + h\<close> and \<open>g + 1\<close> are \<open>NaN\<close> (here \<open>None\<close>), and the
  test \<open>tentativeG < oldG\<close> is false.
\<close>

record astar_state =
  a_gScore :: "pos \<rightharpoonup> int"
  a_fScore :: "pos \<rightharpoonup> int"
  a_previous :: "pos \<rightharpoonup> pos"
  a_visited :: "pos list"
  a_openSet :: "pos pq_entry list"
  a_steps :: "step list"

definition astar_relax :: "pos set \<Rightarrow> pos \<Rightarrow> pos \<Rightarrow> int option \<Rightarrow> pos \<Rightarrow> astar_state \<Rightarrow> astar_state" where
  "astar_relax walls end_p cur g nb s =
     (if nb \<in> walls \<or> set_has nb (a_visited s) then s
      else case g of
             None \<Rightarrow> s
           | Some gv \<Rightarrow>
               let tentativeG = gv + 1
               in if (case a_gScore s nb of None \<Rightarrow> True | Some oldG \<Rightarrow> tentativeG < oldG)
                  then let h = manhattanDistance nb end_p;
                           f = tentativeG + h
                       in s\<lparr>a_gScore := (a_gScore s)(nb \<mapsto> tentativeG),
                            a_fScore := (a_fScore s)(nb \<mapsto> f),
                            a_previous := (a_previous s)(nb \<mapsto> cur),
                            a_openSet := enqueue nb f (a_openSet s),
                            a_steps := a_steps s @ [(new_step Update)\<lparr>current := Some cur,
                                         neighbor := Some nb, gScore := Some tentativeG,
                                         hScore := Some h, fScore := Some f,
                                         visited := Some (a_visited s)\<rparr>]\<rparr>
                  else s)"

lemma astar_relax_fold_frame:
  "a_visited (fold (astar_relax walls end_p cur g) nbs s) = a_visited s
   \<and> fst ` set (a_openSet (fold (astar_relax walls end_p cur g) nbs s))
       \<subseteq> fst ` set (a_openSet s) \<union> set nbs"
proof (induction nbs arbitrary: s)
  case Nil
  show ?case by simp
next
  case (Cons nb nbs)
  let ?s1 = "astar_relax walls end_p cur g nb s"
  have v: "a_visited ?s1 = a_visited s"
    and q: "fst ` set (a_openSet ?s1) \<subseteq> fst ` set (a_openSet s) \<union> {nb}"
    by (auto simp: astar_relax_def Let_def split: option.splits)
  have "fst ` set (a_openSet (fold (astar_relax walls end_p cur g) nbs ?s1))
      \<subseteq> fst ` set (a_openSet ?s1) \<union> set nbs"
    using Cons[of ?s1] by blast
  also have "\<dots> \<subseteq> fst ` set (a_openSet s) \<union> set (nb # nbs)"
    using q by auto
  finally show ?case using Cons[of ?s1] v by simp
qed

function aStar_loop :: "int \<Rightarrow> int \<Rightarrow> pos \<Rightarrow> pos \<Rightarrow> pos set \<Rightarrow> astar_state
    \<Rightarrow> step list option" where
  "aStar_loop rows cols start_p end_p walls s =
     (case a_openSet s of
        [] \<Rightarrow> Some (a_steps s @ [(new_step NoPath)\<lparr>visited := Some (a_visited s)\<rparr>])
      | v # rest \<Rightarrow>
          if set_has (element v) (a_visited s)
          then aStar_loop rows cols start_p end_p walls (s\<lparr>a_openSet := rest\<rparr>)
          else let cur = element v;
                   vis1 = set_add cur (a_visited s);
                   g = a_gScore s cur;
                   h = manhattanDistance cur end_p;
                   f = map_option (\<lambda>gv. gv + h) g;
                   ss1 = a_steps s @ [(new_step Visit)\<lparr>current := Some cur, gScore := g,
                           hScore := Some h, fScore := f, visited := Some vis1\<rparr>]
               in if row cur = row end_p \<and> col cur = col end_p
                  then (case reconstructPath (a_previous s) start_p end_p of
                          None \<Rightarrow> None
                        | Some p \<Rightarrow>
                            Some (ss1 @ [(new_step PathFound)\<lparr>path := Some p,
                                    distance := g, visited := Some vis1\<rparr>]))
                  else aStar_loop rows cols start_p end_p walls
                         (fold (astar_relax walls end_p cur g)
                            (getNeighbors (row cur) (col cur) rows cols)
                            (s\<lparr>a_openSet := rest, a_visited := vis1, a_steps := ss1\<rparr>)))"
  by pat_completeness auto
termination
proof (relation "inv_image (less_than <*lex*> less_than)
    (\<lambda>(rows, cols, start_p, end_p, walls, s).
        (card (pending_cells rows cols (a_openSet s) (a_visited s)), length (a_openSet s)))", goal_cases)
  case 1
  show ?case by (intro wf_inv_image wf_lex_prod wf_less_than)
next
  case (2 rows cols start_p end_p walls s v rest)
  then show ?case using pending_cells_skip[of rows cols rest "a_visited s" v]
    by (auto simp: le_less)
next
  case (3 rows cols start_p end_p walls s v rest cur vis1 g h f ss1)
  let ?s' = "fold (astar_relax walls end_p cur g) (getNeighbors (row cur) (col cur) rows cols)
                            (s\<lparr>a_openSet := rest, a_visited := vis1, a_steps := ss1\<rparr>)"
  have fr: "a_visited ?s' = vis1"
    "fst ` set (a_openSet ?s') \<subseteq> fst ` set rest \<union> set (getNeighbors (row cur) (col cur) rows cols)"
    using astar_relax_fold_frame[of walls end_p cur g "getNeighbors (row cur) (col cur) rows cols"
        "s\<lparr>a_openSet := rest, a_visited := vis1, a_steps := ss1\<rparr>"] by simp_all
  have "a_openSet s = (cur, priority v) # rest" using 3 by (simp add: element_def priority_def)
  from pending_cells_visit[OF this _ fr(2)] 3 fr(1)
  show ?case by (simp add: set_has_def)
qed

declare aStar_loop.simps [simp del]

definition aStar :: "int \<Rightarrow> int \<Rightarrow> pos \<Rightarrow> pos \<Rightarrow> pos set \<Rightarrow> step list option" where
  "aStar rows cols start_p end_p walls =
     aStar_loop rows cols start_p end_p walls
       \<lparr>a_gScore = [start_p \<mapsto> 0],
        a_fScore = [start_p \<mapsto> manhattanDistance start_p end_p],
        a_previous = Map.empty, a_visited = [],
        a_openSet = enqueue start_p (manhattanDistance start_p end_p) [],
        a_steps = [(new_step Init)\<lparr>start := Some start_p, end_pos := Some end_p,
                     heuristic := Some (manhattanDistance start_p end_p)\<rparr>]\<rparr>"

section \<open>Priority queue: the implementation refines the specification\<close>

lemma pq_sort_snoc_absorb:
  "pq_sort (pq_sort ins @ [x]) = pq_sort (ins @ [x])"
  unfolding pq_sort_def
proof (rule properties_for_sort_key)
  show "mset (sort_key priority (ins @ [x])) = mset (sort_key priority ins @ [x])"
    by simp
  show "sorted (map priority (sort_key priority (ins @ [x])))"
    by simp
  fix k
  show "filter (\<lambda>y. priority k = priority y) (sort_key priority (ins @ [x])) =
        filter (\<lambda>y. priority k = priority y) (sort_key priority ins @ [x])"
    using sort_key_stable [of priority "priority k" "ins @ [x]"]
      sort_key_stable [of priority "priority k" ins]
    by (simp add: eq_commute [of "priority k"])
qed

lemma pq_head_min:
  assumes "pq_sort ins = v # rest"
  shows "\<forall>w\<in>set ins. priority v \<le> priority w"
proof -
  have "sorted (map priority (v # rest))" using assms[symmetric] by (simp add: pq_sort_def)
  moreover have "set ins = set (v # rest)" using assms[symmetric] by (simp add: pq_sort_def)
  ultimately show ?thesis by auto
qed

lemma pq_head_filter:
  assumes "pq_sort ins = v # rest"
  shows "filter (\<lambda>y. priority y = k) ins = filter (\<lambda>y. priority y = k) (v # rest)"
  using sort_key_stable [of priority k ins] assms by (simp add: pq_sort_def)

lemma find_filter_conv: "find P xs = (case filter P xs of [] \<Rightarrow> None | x # _ \<Rightarrow> Some x)"
  by (induction xs) auto

lemma pq_head_earliest:
  assumes "pq_sort ins = v # rest"
  shows "spec_earliest_min ins = Some v"
proof -
  have mn: "\<forall>w\<in>set ins. priority v \<le> priority w" using pq_head_min[OF assms] .
  have vin: "v \<in> set ins" using assms
    by (metis list.set_intros(1) pq_sort_def set_sort)
  have "find (\<lambda>w. list_all (\<lambda>u. priority w \<le> priority u) ins) ins
        = find (\<lambda>y. priority y = priority v) ins"
  proof (rule find_cong[OF refl])
    fix w assume "w \<in> set ins"
    then show "list_all (\<lambda>u. priority w \<le> priority u) ins = (priority w = priority v)"
      using mn vin by (auto simp: list_all_iff intro: antisym)
  qed
  also have "\<dots> = Some v"
    using pq_head_filter[OF assms, of "priority v"] by (simp add: find_filter_conv)
  finally show ?thesis by (simp add: spec_earliest_min_def)
qed

lemma pq_tail_sort:
  assumes "pq_sort ins = v # rest"
  shows "pq_sort (remove1 v ins) = rest"
  unfolding pq_sort_def
proof (rule properties_for_sort_key)
  have "mset ins = mset (v # rest)" using assms[symmetric] by (simp add: pq_sort_def)
  then show "mset rest = mset (remove1 v ins)" by simp
  have "sorted (map priority (v # rest))" using assms[symmetric] by (simp add: pq_sort_def)
  then show "sorted (map priority rest)" by simp
  fix k
  have "filter (\<lambda>y. priority k = priority y) (remove1 v ins)
        = remove1 v (filter (\<lambda>y. priority y = priority k) ins)"
    by (simp add: filter_remove1 eq_commute)
  also have "\<dots> = remove1 v (filter (\<lambda>y. priority y = priority k) (v # rest))"
    by (simp add: pq_head_filter[OF assms])
  also have "\<dots> = filter (\<lambda>y. priority y = priority k) rest"
    by (auto simp: remove1_idem)
  finally show "filter (\<lambda>y. priority k = priority y) rest
      = filter (\<lambda>y. priority k = priority y) (remove1 v ins)"
    by (simp add: eq_commute)
qed

lemma run_pq_refines:
  "run_pq ops (pq_sort ins) = run_spec ops ins"
proof (induction ops arbitrary: ins)
  case Nil
  show ?case by simp
next
  case (Cons a ops)
  show ?case
  proof (cases a)
    case (Enqueue e p)
    then show ?thesis using Cons.IH[of "ins @ [(e,p)]"]
      by (simp add: enqueue_def pq_sort_snoc_absorb)
  next
    case Dequeue
    show ?thesis
    proof (cases "pq_sort ins")
      case Nil
      then have "ins = []" by (metis pq_sort_def length_sort length_0_conv)
      then show ?thesis using Dequeue Cons.IH[of "[]"]
        by (simp add: dequeue_def spec_dequeue_def spec_earliest_min_def pq_sort_def)
    next
      case (Cons v rest)
      then show ?thesis using Dequeue Cons.IH[of "remove1 v ins"]
        by (simp add: dequeue_def spec_dequeue_def pq_head_earliest[OF Cons] pq_tail_sort[OF Cons])
    qed
  qed
qed

text \<open>
  Claim C7. Whatever calls of \<open>enqueue\<close> and \<open>dequeue\<close> are made on a new queue, every
  \<open>dequeue\<close> returns what the specification asks for: the stored entry of smallest
  priority, the earliest inserted among equals (and \<open>undefined\<close> on an empty queue). In
  particular, after (A,5), (B,2), (C,2) two calls of \<open>dequeue\<close> return B and then C.
\<close>

theorem pq_dequeue_min_stable:
  "run_pq ops [] = run_spec ops []
   \<and> run_pq [Enqueue ''A'' 5, Enqueue ''B'' 2, Enqueue ''C'' 2, Dequeue, Dequeue] []
       = [Some (''B'', 2), Some (''C'', 2)]"
proof
  show "run_pq ops [] = run_spec ops []"
    using run_pq_refines[of ops "[]"] by (simp add: pq_sort_def)
  show "run_pq [Enqueue ''A'' 5, Enqueue ''B'' 2, Enqueue ''C'' 2, Dequeue, Dequeue] []
       = [Some (''B'', 2), Some (''C'', 2)]"
    by (simp add: enqueue_def dequeue_def pq_sort_def priority_def)
qed

theorem pq_dequeue_min_stable_witness:
  "run_spec [Enqueue ''A'' 5, Enqueue ''B'' 2, Enqueue ''C'' 2, Dequeue, Dequeue, Dequeue, Dequeue] []
       = [Some (''B'', 2), Some (''C'', 2), Some (''A'', 5), None]"
  using pq_dequeue_min_stable[of "[Enqueue ''A'' 5, Enqueue ''B'' 2, Enqueue ''C'' 2, Dequeue, Dequeue, Dequeue, Dequeue]"]
  by (simp add: enqueue_def dequeue_def pq_sort_def priority_def)

section \<open>Playback: reset, stepForward, getProgress\<close>

lemma reset_fields:
  "steps (reset c) = steps c" "currentStepIndex (reset c) = 0"
  by (simp_all add: reset_def notify_def stop_def)

text \<open>
  Claim C8. \<open>reset\<close> puts the index at 0, so that the current step of a non-empty sequence
  is its first step; \<open>stepForward\<close> below the last index adds one to the index; at the
  last index (or beyond it) \<open>stepForward\<close> changes nothing at all, and raises no error.
  Neither call touches the loaded sequence.
\<close>

theorem playback_reset_stepForward:
  "currentStepIndex (reset c) = 0
   \<and> steps (reset c) = steps c
   \<and> (steps c \<noteq> [] \<longrightarrow> getCurrentStep (reset c) = Some (hd (steps c)))
   \<and> steps (stepForward c) = steps c
   \<and> (currentStepIndex c < int (length (steps c)) - 1
        \<longrightarrow> currentStepIndex (stepForward c) = currentStepIndex c + 1)
   \<and> (currentStepIndex c \<ge> int (length (steps c)) - 1 \<longrightarrow> stepForward c = c)"
  by (cases "steps c") (simp_all add: reset_fields getCurrentStep_def stepForward_def notify_def hd_conv_nth)

theorem playback_reset_stepForward_witness:
  "getCurrentStep (reset (loadSteps [10, 20, 30 :: nat] newAnimationController)) = Some 10
   \<and> getCurrentStep (stepForward (stepForward (reset (loadSteps [10, 20, 30 :: nat] newAnimationController)))) = Some 30
   \<and> stepForward (stepForward (stepForward (reset (loadSteps [10, 20, 30 :: nat] newAnimationController))))
       = stepForward (stepForward (reset (loadSteps [10, 20, 30 :: nat] newAnimationController)))"
  using playback_reset_stepForward [of "loadSteps [10, 20, 30 :: nat] newAnimationController"]
    playback_reset_stepForward [of "stepForward (stepForward (reset (loadSteps [10, 20, 30 :: nat] newAnimationController)))"]
  by (simp add: loadSteps_def newAnimationController_def reset_def stop_def notify_def stepForward_def getCurrentStep_def)

text \<open>
  The rounding to a double stays between integers (below \<open>2\<^sup>5\<^sup>2\<close>) that bound the exact
  value, since those are doubles themselves.
\<close>

lemma round_half_even_le: "x \<le> of_int m \<Longrightarrow> round_half_even x \<le> m"
proof -
  assume a: "x \<le> of_int m"
  have f: "\<lfloor>x\<rfloor> \<le> m" using a by (simp add: floor_le_iff) 
  show ?thesis
  proof (cases "\<lfloor>x\<rfloor> = m")
    case True
    then have "x - of_int \<lfloor>x\<rfloor> \<le> 0" using a by simp
    then show ?thesis using True by (simp add: round_half_even_def Let_def)
  next
    case False
    then have "\<lfloor>x\<rfloor> + 1 \<le> m" using f by simp
    then show ?thesis by (simp add: round_half_even_def Let_def)
  qed
qed

lemma round_half_even_ge: "of_int m \<le> x \<Longrightarrow> m \<le> round_half_even x"
proof -
  assume "of_int m \<le> x"
  then have "m \<le> \<lfloor>x\<rfloor>" by (simp add: le_floor_iff)
  then show ?thesis by (simp add: round_half_even_def Let_def)
qed

lemma binade_bounds:
  assumes "x \<noteq> 0"
  shows "2 powi (binade x) \<le> \<bar>x\<bar> \<and> \<bar>x\<bar> < 2 powi (binade x + 1)"
proof -
  obtain p q where pq: "quotient_of \<bar>x\<bar> = (p, q)" by (cases "quotient_of \<bar>x\<bar>")
  have q: "q > 0" using pq by (rule quotient_of_denom_pos)
  have x: "\<bar>x\<bar> = of_int p / of_int q" using pq by (rule quotient_of_div)
  have p: "p > 0" 
  proof (rule ccontr)
    assume "\<not> p > 0"
    then have "of_int p / of_int q \<le> (0::rat)" using q by (simp add: divide_le_0_iff)
    then show False using x assms by simp
  qed
  let ?bp = "bitlen p" and ?bq = "bitlen q"
  have bp: "2 ^ nat (?bp - 1) \<le> p" "p < 2 ^ nat ?bp" using bitlen_bounds[OF p] by simp_all
  have bq: "2 ^ nat (?bq - 1) \<le> q" "q < 2 ^ nat ?bq" using bitlen_bounds[OF q] by simp_all
  have pos: "?bp \<ge> 1" "?bq \<ge> 1" using p q by (simp_all add: bitlen_def floorlog_def)
  have rp: "(2::rat) powi (?bp - 1) \<le> of_int p" "of_int p < (2::rat) powi ?bp"
  proof -
    have "(of_int (2 ^ nat (?bp - 1)) :: rat) \<le> of_int p" using bp(1) by (simp only: of_int_le_iff)
    then show "(2::rat) powi (?bp - 1) \<le> of_int p" using pos by (simp add: power_int_def)
    have "(of_int p :: rat) < of_int (2 ^ nat ?bp)" using bp(2) by (simp only: of_int_less_iff)
    then show "of_int p < (2::rat) powi ?bp" using pos by (simp add: power_int_def)
  qed
  have rq: "(2::rat) powi (?bq - 1) \<le> of_int q" "of_int q < (2::rat) powi ?bq"
  proof -
    have "(of_int (2 ^ nat (?bq - 1)) :: rat) \<le> of_int q" using bq(1) by (simp only: of_int_le_iff)
    then show "(2::rat) powi (?bq - 1) \<le> of_int q" using pos by (simp add: power_int_def)
    have "(of_int q :: rat) < of_int (2 ^ nat ?bq)" using bq(2) by (simp only: of_int_less_iff)
    then show "of_int q < (2::rat) powi ?bq" using pos by (simp add: power_int_def)
  qed
  have qpos: "(0::rat) < of_int q" using q by simp
  let ?e = "?bp - ?bq"
  have up: "\<bar>x\<bar> < 2 powi (?e + 1)"
  proof -
    have "of_int p < (2::rat) powi (?e + 1) * 2 powi (?bq - 1)"
      using rp(2) by (simp add: power_int_add [symmetric])
    also have "\<dots> \<le> 2 powi (?e + 1) * of_int q"
      using rq(1) by (simp add: mult_left_mono)
    finally show ?thesis using qpos by (simp add: x pos_divide_less_eq)
  qed
  have lo: "2 powi (?e - 1) \<le> \<bar>x\<bar>"
  proof -
    have "(2::rat) powi (?e - 1) * of_int q \<le> 2 powi (?e - 1) * 2 powi ?bq"
      using rq(2) by (simp add: mult_left_mono)
    also have "\<dots> = 2 powi (?bp - 1)" by (simp add: power_int_add [symmetric])
    also have "\<dots> \<le> of_int p" by (rule rp(1))
    finally show ?thesis using qpos by (simp add: x pos_le_divide_eq)
  qed
  show ?thesis
  proof (cases "\<bar>x\<bar> < 2 powi ?e")
    case True
    then have "binade x = ?e - 1" by (simp add: binade_def pq Let_def)
    then show ?thesis using True lo by simp
  next
    case False
    then have "binade x = ?e" by (simp add: binade_def pq Let_def)
    then show ?thesis using False up by simp
  qed
qed

lemma binade_le:
  assumes "x \<noteq> 0" and "\<bar>x\<bar> < 2 powi k"
  shows "binade x < k"
proof -
  have lt: "(2::rat) powi (binade x) < 2 powi k" using binade_bounds[OF assms(1)] assms(2) by simp
  show ?thesis
  proof (rule ccontr)
    assume "\<not> binade x < k"
    then have "(2::rat) powi k \<le> 2 powi (binade x)" by (intro power_int_increasing) simp_all
    then show False using lt by simp
  qed
qed

lemma to_double_nonneg:
  assumes "0 \<le> x"
  shows "0 \<le> to_double x"
proof (cases "x = 0")
  case True
  then show ?thesis by (simp add: to_double_def)
next
  case False
  let ?u = "(2::rat) powi (binade x - 52)"
  have "of_int 0 \<le> x / ?u" using assms by simp
  then have "0 \<le> round_half_even (x / ?u)" by (rule round_half_even_ge)
  then show ?thesis using False by (simp add: to_double_def Let_def)
qed

lemma to_double_le_int:
  assumes "0 \<le> x" and "x \<le> of_int n" and "n < 2 ^ 52"
  shows "to_double x \<le> of_int n"
proof (cases "x = 0")
  case True
  then show ?thesis using assms by (simp add: to_double_def)
next
  case False
  let ?k = "52 - binade x"
  let ?u = "(2::rat) powi (binade x - 52)"
  have "\<bar>x\<bar> < 2 powi 52" using assms by simp
  then have k: "0 < ?k" using binade_le[OF False, of 52] by simp
  have "(2::rat) ^ nat ?k = 2 powi ?k" using k by (simp add: power_int_def)
  then have u: "?u * 2 ^ nat ?k = 1" by (simp add: power_int_add [symmetric])
  have "x / ?u \<le> of_int n / ?u" using assms(2) by (simp add: divide_right_mono)
  also have "of_int n / ?u = of_int (n * 2 ^ nat ?k)"
  proof -
    have "of_int n / ?u = of_int n * (?u * 2 ^ nat ?k) / ?u" by (simp only: u mult_1_right)
    also have "\<dots> = of_int n * 2 ^ nat ?k" by simp
    finally show ?thesis by simp
  qed
  finally have "round_half_even (x / ?u) \<le> n * 2 ^ nat ?k" by (rule round_half_even_le)
  then have "(of_int (round_half_even (x / ?u)) :: rat) \<le> of_int (n * 2 ^ nat ?k)"
    by (simp only: of_int_le_iff)
  then have "of_int (round_half_even (x / ?u)) * ?u \<le> of_int (n * 2 ^ nat ?k) * ?u"
    by (simp add: mult_right_mono)
  also have "\<dots> = of_int n" using u by (simp add: mult.assoc mult.commute)
  finally show ?thesis using False by (simp add: to_double_def Let_def)
qed


text \<open>
  The double arithmetic shows at index 23 of 41 steps: the quotient 23/40 rounds to a double
  just below 0.575, the product to one just below 57.5, and the result is 57, where the
  exact value 57.5 would round to 58.
\<close>

lemma getProgress_23_of_41: "js_div_times100_round 23 40 = Finite 57"
  by code_simp

text \<open>
  With two steps or more and the index inside the sequence, \<open>getProgress\<close> is a
  percentage.
\<close>

lemma getProgress_range:
  assumes "2 \<le> length (steps c)" "0 \<le> currentStepIndex c" "currentStepIndex c \<le> int (length (steps c)) - 1"
  shows "\<exists>p. getProgress c = Finite p \<and> 0 \<le> p \<and> p \<le> 100"
proof -
  let ?i = "currentStepIndex c" and ?d = "int (length (steps c)) - 1"
  have d: "0 < ?d" using assms by simp
  let ?q = "to_double (of_int ?i / of_int ?d)"
  have q0: "(0::rat) \<le> of_int ?i / of_int ?d" using assms d by simp
  have q1: "of_int ?i / of_int ?d \<le> (of_int 1 :: rat)" using assms d by (simp add: divide_le_eq)
  have d0: "0 \<le> ?q" using q0 by (rule to_double_nonneg)
  have d1: "?q \<le> of_int 1" using q0 q1 by (rule to_double_le_int) simp
  let ?p = "to_double (?q * 100)"
  have p0: "0 \<le> ?q * 100" using d0 by simp
  have p1: "?q * 100 \<le> of_int 100" using d1 by simp
  have e0: "0 \<le> ?p" using p0 by (rule to_double_nonneg)
  have e1: "?p \<le> of_int 100" using p0 p1 by (rule to_double_le_int) simp
  have "0 \<le> \<lfloor>?p + 1 / 2\<rfloor>" using e0 by simp
  moreover have "\<lfloor>?p + 1 / 2\<rfloor> \<le> 100" using e1 by (simp add: floor_le_iff)
  ultimately show ?thesis using assms d
    by (simp add: getProgress_def js_div_times100_round_def math_round_def)
qed

text \<open>
  Claim C9. The claim asks for a number between 0 and 100 for every non-empty sequence.
  \<open>getProgress\<close> guards the empty sequence only: with a single step loaded it divides
  0 by 0 and returns \<open>NaN\<close>.
\<close>

theorem getProgress_single_step_NaN:
  "getProgress (loadSteps [s] newAnimationController) = NaN"
  by (simp add: getProgress_def loadSteps_def js_div_times100_round_def)

section \<open>Sorting: the final array is the sorted input\<close>

lemma fold_upt_Suc: "fold f [0..<Suc k] s = f k (fold f [0..<k] s)"
  by simp

lemma mset_swap_adj:
  "Suc j < length a \<Longrightarrow> mset (swap a j (Suc j)) = mset a"
  unfolding swap_def by (simp add: mset_swap)

definition bubble_inv :: "int list \<Rightarrow> nat \<Rightarrow> int list \<times> bool \<times> step list \<Rightarrow> bool" where
  "bubble_inv a k st = (case st of (a', sw, ss') \<Rightarrow>
      length a' = length a \<and> mset a' = mset a
      \<and> (\<forall>p\<le>k. a' ! p \<le> a' ! k)
      \<and> (\<forall>p>k. a' ! p = a ! p)
      \<and> (\<not> sw \<longrightarrow> a' = a \<and> sorted (take (Suc k) a)))"

lemma bubble_inner_inv:
  "k < length a \<Longrightarrow> bubble_inv a k (fold (bubble_compare n i) [0..<k] (a, False, ss))"
proof (induction k)
  case 0
  then show ?case by (cases a) (simp_all add: bubble_inv_def)
next
  case (Suc k)
  then have IH: "bubble_inv a k (fold (bubble_compare n i) [0..<k] (a, False, ss))" by simp
  obtain a' sw ss' where st: "fold (bubble_compare n i) [0..<k] (a, False, ss) = (a', sw, ss')"
    by (metis prod_cases3)
  from IH st have len: "length a' = length a" and ms: "mset a' = mset a"
    and mx: "\<forall>p\<le>k. a' ! p \<le> a' ! k" and rest: "\<forall>p>k. a' ! p = a ! p"
    and nsw: "\<not> sw \<longrightarrow> a' = a \<and> sorted (take (Suc k) a)"
    by (simp_all add: bubble_inv_def)
  have kk: "Suc k < length a'" using Suc.prems len by simp
  have step: "fold (bubble_compare n i) [0..<Suc k] (a, False, ss) = bubble_compare n i k (a', sw, ss')"
    by (simp add: st)
  show ?case
  proof (cases "a' ! k > a' ! Suc k")
    case True
    have "\<forall>p\<le>Suc k. swap a' k (Suc k) ! p \<le> swap a' k (Suc k) ! Suc k"
    proof (intro allI impI)
      fix p assume "p \<le> Suc k"
      then consider "p = Suc k" | "p = k" | "p < k" by linarith
      then show "swap a' k (Suc k) ! p \<le> swap a' k (Suc k) ! Suc k"
        using True mx kk by cases (auto simp: swap_def)
    qed
    moreover have "\<forall>p>Suc k. swap a' k (Suc k) ! p = a ! p"
      using rest by (auto simp: swap_def)
    ultimately show ?thesis
      unfolding step using True kk len ms mset_swap_adj[OF kk]
      by (simp add: bubble_inv_def bubble_compare_def Let_def swap_def)
  next
    case False
    have mx2: "\<forall>p\<le>Suc k. a' ! p \<le> a' ! Suc k"
    proof (intro allI impI)
      fix p assume "p \<le> Suc k"
      then consider "p = Suc k" | "p \<le> k" by linarith
      then show "a' ! p \<le> a' ! Suc k"
        using False mx by cases (auto intro: order_trans)
    qed
    have "\<not> sw \<longrightarrow> sorted (take (Suc (Suc k)) a)"
    proof
      assume "\<not> sw"
      with nsw have eq: "a' = a" and so: "sorted (take (Suc k) a)" by simp_all
      have "\<forall>x\<in>set (take (Suc k) a). x \<le> a ! Suc k"
      proof
        fix x assume "x \<in> set (take (Suc k) a)"
        then obtain p where "p < Suc k" "x = a ! p"
          using Suc.prems by (auto simp: in_set_conv_nth)
        then show "x \<le> a ! Suc k" using mx2 eq by simp
      qed
      then show "sorted (take (Suc (Suc k)) a)"
        using so Suc.prems by (simp add: take_Suc_conv_app_nth[of "Suc k"] sorted_append)
    qed
    then show ?thesis
      unfolding step using False len ms rest nsw mx2
      by (simp add: bubble_inv_def bubble_compare_def Let_def)
  qed
qed


definition bubble_outer_inv :: "int list \<Rightarrow> nat \<Rightarrow> int list \<Rightarrow> bool" where
  "bubble_outer_inv arr i a =
     (length a = length arr \<and> mset a = mset arr
      \<and> (\<forall>p q. p \<le> q \<and> length arr - i \<le> q \<and> q < length arr \<longrightarrow> a ! p \<le> a ! q))"

lemma mset_take_from_rest:
  assumes "length a' = length a" "mset a' = mset a" "\<forall>p\<ge>m. a' ! p = a ! p"
  shows "mset (take m a') = mset (take m a)"
proof -
  have "drop m a' = drop m a"
    using assms(1,3) by (intro nth_equalityI) simp_all
  moreover have "mset (take m a') + mset (drop m a') = mset (take m a) + mset (drop m a)"
    using assms(2) by (metis append_take_drop_id mset_append)
  ultimately show ?thesis by simp
qed

lemma bubble_pass_keeps_inv:
  assumes inv: "bubble_outer_inv arr i a" and n: "n = length arr" and i: "int i < int n - 1"
    and r: "fold (bubble_compare n i) [0..<n - i - 1] (a, False, ss) = (a', sw, ss')"
  shows "bubble_outer_inv arr (Suc i) a'" and "\<not> sw \<Longrightarrow> sorted a'"
proof -
  let ?k = "n - i - 1"
  have la: "length a = n" using inv n by (simp add: bubble_outer_inv_def)
  have k: "?k < length a" using i la by linarith
  have I: "bubble_inv a ?k (a', sw, ss')"
    using bubble_inner_inv[OF k, of n i ss] r by simp
  then have len: "length a' = length a" and ms: "mset a' = mset a"
    and mx: "\<forall>p\<le>?k. a' ! p \<le> a' ! ?k" and rest: "\<forall>p>?k. a' ! p = a ! p"
    and nsw: "\<not> sw \<longrightarrow> a' = a \<and> sorted (take (Suc ?k) a)"
    by (simp_all add: bubble_inv_def)
  have old: "\<And>p q. p \<le> q \<Longrightarrow> n - i \<le> q \<Longrightarrow> q < n \<Longrightarrow> a ! p \<le> a ! q"
    using inv n by (simp add: bubble_outer_inv_def)
  have tk: "mset (take (Suc ?k) a') = mset (take (Suc ?k) a)"
    using mset_take_from_rest[OF len ms, of "Suc ?k"] rest by (simp add: Suc_le_eq)
  have new: "a' ! p \<le> a' ! q" if pq: "p \<le> q" "n - Suc i \<le> q" "q < n" for p q
  proof (cases "q = ?k")
    case True
    then show ?thesis using mx pq by simp
  next
    case False
    then have q: "q > ?k" "n - i \<le> q" using pq by linarith+
    show ?thesis
    proof (cases "p > ?k")
      case True
      then show ?thesis using rest q old[of p q] pq by simp
    next
      case False
      then have "p < Suc ?k" by simp
      have "take (Suc ?k) a' ! p \<in> set (take (Suc ?k) a')"
        using k len \<open>p < Suc ?k\<close> by (intro nth_mem) simp
      then have "a' ! p \<in> set (take (Suc ?k) a')" using \<open>p < Suc ?k\<close> by simp
      then have "a' ! p \<in> set_mset (mset (take (Suc ?k) a'))" by simp
      then have "a' ! p \<in> set (take (Suc ?k) a)" unfolding tk by simp
      then obtain p' where p': "p' < Suc ?k" "a ! p' = a' ! p"
        by (auto simp: in_set_conv_nth)
      then have "a ! p' \<le> a ! q" using old[of p' q] q pq by simp
      then show ?thesis using p' rest q by simp
    qed
  qed
  show "bubble_outer_inv arr (Suc i) a'"
    using len ms inv n new by (simp add: bubble_outer_inv_def)
  show "sorted a'" if "\<not> sw"
  proof -
    from that nsw have eq: "a' = a" and so: "sorted (take (Suc ?k) a)" by simp_all
    have sk: "Suc ?k = n - i" using i by linarith
    have "a ! p \<le> a ! q" if "p \<le> q" "q < length a" for p q
    proof (cases "n - i \<le> q")
      case True
      then show ?thesis using old[of p q] that la by simp
    next
      case False
      then have "q < Suc ?k" using sk by simp
      then have "take (Suc ?k) a ! p \<le> take (Suc ?k) a ! q"
        using so that k by (intro sorted_nth_mono) simp_all
      then show ?thesis using \<open>q < Suc ?k\<close> that by simp
    qed
    then show ?thesis using eq by (simp add: sorted_iff_nth_mono)
  qed
qed

lemma bubble_passes_sorted:
  "bubble_outer_inv arr i a \<Longrightarrow> n = length arr \<Longrightarrow> bubble_passes n i (a, ss) = (af, sf)
   \<Longrightarrow> sorted af \<and> mset af = mset arr"
proof (induction n i "(a, ss)" arbitrary: a ss rule: bubble_passes.induct)
  case (1 n i a ss)
  show ?case
  proof (cases "int i < int n - 1")
    case False
    then have eq: "af = a" using "1.prems"(3) by (simp add: bubble_passes.simps[of n i a ss])
    have la: "length a = n" and ms: "mset a = mset arr"
      using "1.prems"(1,2) by (simp_all add: bubble_outer_inv_def)
    have "a ! p \<le> a ! q" if "p \<le> q" "q < length a" for p q
    proof (cases "q = 0")
      case True then show ?thesis using that by simp
    next
      case False
      then have "n - i \<le> q" using \<open>\<not> int i < int n - 1\<close> by linarith
      then show ?thesis using "1.prems"(1,2) that la by (simp add: bubble_outer_inv_def)
    qed
    then show ?thesis using eq ms by (simp add: sorted_iff_nth_mono)
  next
    case True
    let ?ss1 = "ss @ [(new_step Pass)\<lparr>array := Some a, sorted_idx := Some (desc_from n (n - i))\<rparr>]"
    obtain a' sw ss' where r: "fold (bubble_compare n i) [0..<n - i - 1] (a, False, ?ss1) = (a', sw, ss')"
      by (metis prod_cases3)
    note keep = bubble_pass_keeps_inv[OF "1.prems"(1,2) True r]
    show ?thesis
    proof (cases sw)
      case False
      then have "af = a'" using "1.prems"(3) True r
        by (simp add: bubble_passes.simps[of n i a ss] Let_def)
      moreover have "mset a' = mset arr" using keep(1) by (simp add: bubble_outer_inv_def)
      ultimately show ?thesis using keep(2) False by simp
    next
      case sw: True
      have "bubble_passes n (i + 1) (a', ss') = (af, sf)"
        using "1.prems"(3) True r sw by (simp add: bubble_passes.simps[of n i a ss] Let_def)
      then show ?thesis
        using "1.hyps"[OF True refl r[symmetric] refl _ _ "1.prems"(2)] keep(1) sw by simp
    qed
  qed
qed

lemma bubbleSort_last:
  "\<exists>ss. bubbleSort arr = ss @ [(new_step Complete)\<lparr>array := Some (sort arr),
       sorted_idx := Some [0..<length arr]\<rparr>]"
proof -
  obtain af sf where r: "bubble_passes (length arr) 0 (arr, [(new_step Init)\<lparr>array := Some arr\<rparr>]) = (af, sf)"
    by (metis surj_pair)
  have "bubble_outer_inv arr 0 arr" by (simp add: bubble_outer_inv_def)
  from bubble_passes_sorted[OF this refl r] have "sort arr = af"
    by (intro properties_for_sort) simp_all
  then show ?thesis using r by (simp add: bubbleSort_def Let_def)
qed

declare insertion_shift.simps [simp del]

definition shift_inv :: "int \<Rightarrow> nat \<Rightarrow> nat \<Rightarrow> int list \<Rightarrow> bool" where
  "shift_inv key i m a =
     ((\<forall>p q. p \<le> q \<and> q \<le> i \<and> p \<noteq> m \<and> q \<noteq> m \<longrightarrow> a ! p \<le> a ! q)
      \<and> (\<forall>q. m < q \<and> q \<le> i \<longrightarrow> key \<le> a ! q))"

lemma insertion_shift_inv:
  "insertion_shift key i j (a, ss) = (j', a', ss') \<Longrightarrow> -1 \<le> j \<Longrightarrow> j < int i \<Longrightarrow> i < length a
   \<Longrightarrow> shift_inv key i (nat (j + 1)) a
   \<Longrightarrow> -1 \<le> j' \<and> j' \<le> j \<and> length a' = length a \<and> shift_inv key i (nat (j' + 1)) a'
       \<and> (j' \<ge> 0 \<longrightarrow> a' ! nat j' \<le> key)
       \<and> mset (a'[nat (j' + 1) := key]) = mset (a[nat (j + 1) := key])"
proof (induction key i j "(a, ss)" arbitrary: a ss rule: insertion_shift.induct)
  case (1 key i j a ss)
  show ?case
  proof (cases "j \<ge> 0 \<and> a ! nat j > key")
    case False
    then have "j' = j" "a' = a" using "1.prems"(1) by (auto simp: insertion_shift.simps[of key i j a ss])
    then show ?thesis using False "1.prems"(2-) by auto
  next
    case True
    define m where "m = nat j"
    have m: "nat (j + 1) = Suc m" "nat (j - 1 + 1) = m" "j = int m" "Suc m \<le> i" "Suc m < length a"
      using True "1.prems"(2-4) unfolding m_def by linarith+
    let ?a = "a[nat j + 1 := a ! nat j]"
    let ?ss1 = "ss @ [(new_step Compare)\<lparr>array := Some a, indices := Some [nat j, nat j + 1],
                            sorted_idx := Some [0..<i]\<rparr>]"
    let ?ss2 = "?ss1 @ [(new_step Shift)\<lparr>array := Some ?a, indices := Some [nat j, nat j + 1],
                              sorted_idx := Some [0..<i]\<rparr>]"
    have rec: "insertion_shift key i (j - 1) (?a, ?ss2) = (j', a', ss')"
      using "1.prems"(1) True by (simp add: insertion_shift.simps[of key i j a ss] Let_def)
    have old1: "\<And>p q. p \<le> q \<Longrightarrow> q \<le> i \<Longrightarrow> p \<noteq> Suc m \<Longrightarrow> q \<noteq> Suc m \<Longrightarrow> a ! p \<le> a ! q"
      and old2: "\<And>q. Suc m < q \<Longrightarrow> q \<le> i \<Longrightarrow> key \<le> a ! q"
      using "1.prems"(5) m by (simp_all add: shift_inv_def)
    have km: "key < a ! m" using True m_def by simp
    have inv': "shift_inv key i m (a[Suc m := a ! m])"
      unfolding shift_inv_def
    proof (intro conjI allI impI)
      fix p q assume h: "p \<le> q \<and> q \<le> i \<and> p \<noteq> m \<and> q \<noteq> m"
      show "a[Suc m := a ! m] ! p \<le> a[Suc m := a ! m] ! q"
      proof (cases "q = Suc m")
        case qm: True
        show ?thesis
        proof (cases "p = Suc m")
          case True then show ?thesis using qm by simp
        next
          case False
          then have "p < m" using h qm by linarith
          then have "a ! p \<le> a ! m" using old1[of p m] m by simp
          then show ?thesis using qm False m by simp
        qed
      next
        case qn: False
        show ?thesis
        proof (cases "p = Suc m")
          case True
          then have "a ! m \<le> a ! q" using old1[of m q] h qn by simp
          then show ?thesis using True qn m by simp
        next
          case False
          then show ?thesis using old1[of p q] h qn by simp
        qed
      qed
    next
      fix q assume h: "m < q \<and> q \<le> i"
      show "key \<le> a[Suc m := a ! m] ! q"
      proof (cases "q = Suc m")
        case True then show ?thesis using km m by simp
      next
        case False
        then show ?thesis using old2[of q] h by simp
      qed
    qed
    have ms: "mset (a[Suc m := a ! m, m := key]) = mset (a[Suc m := key])"
    proof -
      let ?v = "a[Suc m := key]"
      have "mset (?v[m := ?v ! Suc m, Suc m := ?v ! m]) = mset ?v"
        using m(5) by (intro mset_swap) simp_all
      moreover have "?v[m := ?v ! Suc m, Suc m := ?v ! m] = a[Suc m := a ! m, m := key]"
        using m(5) by (intro nth_equalityI) (auto simp: nth_list_update)
      ultimately show ?thesis by simp
    qed
    have IH: "-1 \<le> j' \<and> j' \<le> j - 1 \<and> length a' = length ?a \<and> shift_inv key i (nat (j' + 1)) a'
       \<and> (j' \<ge> 0 \<longrightarrow> a' ! nat j' \<le> key)
       \<and> mset (a'[nat (j' + 1) := key]) = mset (?a[nat (j - 1 + 1) := key])"
    proof (rule "1.hyps"[OF True refl refl refl rec])
      show "-1 \<le> j - 1" using True by simp
      show "j - 1 < int i" using "1.prems"(3) by simp
      show "i < length ?a" using "1.prems"(4) by simp
      have "?a = a[Suc m := a ! m]" by (simp add: m_def)
      then show "shift_inv key i (nat (j - 1 + 1)) ?a" using inv' m(2) by simp
    qed
    have "?a[nat (j - 1 + 1) := key] = a[Suc m := a ! m, m := key]"
      unfolding m(2) by (simp add: m_def)
    then have "mset (a'[nat (j' + 1) := key]) = mset (a[nat (j + 1) := key])"
      using IH ms m(1) by simp
    then show ?thesis using IH by simp
  qed
qed


lemma insertion_insert_sorted:
  assumes so: "sorted (take i a)" and i: "i < length a"
    and r: "insertion_insert i (a, ss) = (a2, ss2)"
  shows "sorted (take (Suc i) a2) \<and> mset a2 = mset a \<and> length a2 = length a"
proof -
  let ?key = "a ! i"
  let ?ss1 = "ss @ [(new_step Select)\<lparr>array := Some a, indices := Some [i], sorted_idx := Some [0..<i]\<rparr>]"
  obtain j' a' ss' where sh: "insertion_shift ?key i (int i - 1) (a, ?ss1) = (j', a', ss')"
    by (metis prod_cases3)
  have a2: "a2 = a'[nat (j' + 1) := ?key]"
    using r sh by (simp add: insertion_insert_def Let_def)
  have init: "shift_inv ?key i (nat (int i - 1 + 1)) a"
    unfolding shift_inv_def
  proof (intro conjI allI impI)
    fix p q assume "p \<le> q \<and> q \<le> i \<and> p \<noteq> nat (int i - 1 + 1) \<and> q \<noteq> nat (int i - 1 + 1)"
    then have pq: "p \<le> q" "q < i" by simp_all
    then have "take i a ! p \<le> take i a ! q"
      using so i by (intro sorted_nth_mono) simp_all
    then show "a ! p \<le> a ! q" using pq by simp
  qed simp
  from insertion_shift_inv[OF sh _ _ i init]
  have j': "-1 \<le> j'" "j' \<le> int i - 1" and len: "length a' = length a"
    and inv: "shift_inv ?key i (nat (j' + 1)) a'"
    and le: "j' \<ge> 0 \<longrightarrow> a' ! nat j' \<le> ?key"
    and ms: "mset (a'[nat (j' + 1) := ?key]) = mset (a[nat (int i - 1 + 1) := ?key])"
    by simp_all
  define m where "m = nat (j' + 1)"
  have m: "m \<le> i" "m < length a'" using j' i len by (simp_all add: m_def)
  have inv1: "\<And>p q. p \<le> q \<Longrightarrow> q \<le> i \<Longrightarrow> p \<noteq> m \<Longrightarrow> q \<noteq> m \<Longrightarrow> a' ! p \<le> a' ! q"
    and inv2: "\<And>q. m < q \<Longrightarrow> q \<le> i \<Longrightarrow> ?key \<le> a' ! q"
    using inv by (simp_all add: shift_inv_def m_def)
  have below: "a' ! p \<le> ?key" if "p < m" for p
  proof -
    have "0 \<le> j'" "nat j' = m - 1" using that by (simp_all add: m_def nat_diff_distrib)
    then have "a' ! (m - 1) \<le> ?key" using le by simp
    moreover have "a' ! p \<le> a' ! (m - 1)"
      using inv1[of p "m - 1"] that m by simp
    ultimately show ?thesis by simp
  qed
  have "a'[m := ?key] ! p \<le> a'[m := ?key] ! q" if pq: "p \<le> q" "q < Suc i" for p q
  proof -
    note that = pq
    consider "p = m" "q = m" | "p = m" "q > m" | "q = m" "p < m" | "p \<noteq> m" "q \<noteq> m"
      using pq by linarith
    then show ?thesis
    proof cases
      case 1 then show ?thesis by simp
    next
      case 2 then show ?thesis using inv2[of q] that m by simp
    next
      case 3 then show ?thesis using below[of p] m by simp
    next
      case 4 then show ?thesis using inv1[of p q] that by simp
    qed
  qed
  then have "sorted (take (Suc i) (a'[m := ?key]))"
    using i len by (simp add: sorted_iff_nth_mono)
  moreover have "mset (a'[m := ?key]) = mset a" using ms by (simp add: m_def)
  ultimately show ?thesis using a2 len by (simp add: m_def)
qed

lemma insertion_fold_sorted:
  "k \<le> length arr \<Longrightarrow> fold insertion_insert [1..<k] (arr, ss) = (a, ss')
   \<Longrightarrow> sorted (take k a) \<and> mset a = mset arr \<and> length a = length arr"
proof (induction k arbitrary: a ss')
  case 0
  then show ?case by simp
next
  case (Suc k)
  show ?case
  proof (cases "k = 0")
    case True
    then have "a = arr" using Suc.prems by simp
    then show ?thesis using True by (cases arr) simp_all
  next
    case False
    obtain a1 ss1 where f: "fold insertion_insert [1..<k] (arr, ss) = (a1, ss1)"
      by (metis surj_pair)
    have IH: "sorted (take k a1) \<and> mset a1 = mset arr \<and> length a1 = length arr"
      using Suc.IH[OF _ f] Suc.prems(1) by simp
    have "[1..<Suc k] = [1..<k] @ [k]" using False by simp
    then have "insertion_insert k (a1, ss1) = (a, ss')" using Suc.prems(2) f by simp
    from insertion_insert_sorted[OF _ _ this] IH Suc.prems(1)
    show ?thesis by simp
  qed
qed

lemma insertionSort_last:
  "\<exists>ss. insertionSort arr = ss @ [(new_step Complete)\<lparr>array := Some (sort arr),
       sorted_idx := Some [0..<length arr]\<rparr>]"
proof -
  obtain af sf where r: "fold insertion_insert [1..<length arr] (arr, [(new_step Init)\<lparr>array := Some arr\<rparr>]) = (af, sf)"
    by (metis surj_pair)
  have "sorted (take (length arr) af) \<and> mset af = mset arr \<and> length af = length arr"
    using insertion_fold_sorted[OF order_refl r] .
  then have "sorted af" "mset af = mset arr"
    by (metis order_refl take_all, simp)
  then have "sort arr = af"
    by (intro properties_for_sort) simp_all
  then show ?thesis using r by (simp add: insertionSort_def Let_def)
qed

declare merge_compare.simps [simp del] merge_copy.simps [simp del] mergeSortHelper.simps [simp del]

lemma merge_copy_writes:
  "a = P @ Z @ B \<Longrightarrow> length P = k \<Longrightarrow> length Z = length src - i \<Longrightarrow> i \<le> length src
   \<Longrightarrow> merge_copy src (i, k, a, ss) = (i', k', a', ss')
   \<Longrightarrow> a' = P @ drop i src @ B \<and> k' = k + (length src - i)"
proof (induction src "(i, k, a, ss)" arbitrary: i k a ss P Z rule: merge_copy.induct)
  case (1 src i k a ss)
  show ?case
  proof (cases "i < length src")
    case False
    then have "merge_copy src (i, k, a, ss) = (i, k, a, ss)"
      by (subst merge_copy.simps) simp
    then show ?thesis using "1.prems" False by simp
  next
    case True
    then obtain z Z' where Z: "Z = z # Z'" using "1.prems"(3) by (cases Z) auto
    let ?a' = "a[k := src ! i]"
    have a': "?a' = (P @ [src ! i]) @ Z' @ B"
      using "1.prems"(1,2) Z by (simp add: list_update_append)
    have "merge_copy src (i, k, a, ss) = merge_copy src (i + 1, k + 1, ?a',
        ss @ [(new_step Place)\<lparr>array := Some ?a', indices := Some [k]\<rparr>])"
      using True by (subst merge_copy.simps) (simp add: Let_def)
    then have rec: "merge_copy src (i + 1, k + 1, ?a',
        ss @ [(new_step Place)\<lparr>array := Some ?a', indices := Some [k]\<rparr>]) = (i', k', a', ss')"
      using "1.prems"(5) by simp
    have "a' = (P @ [src ! i]) @ drop (i + 1) src @ B \<and> k' = k + 1 + (length src - (i + 1))"
    proof (rule "1.hyps"[OF True refl a' _ _ _ rec])
      show "length (P @ [src ! i]) = k + 1" using "1.prems"(2) by simp
      show "length Z' = length src - (i + 1)" using "1.prems"(3) Z by simp
      show "i + 1 \<le> length src" using True by simp
    qed
    then show ?thesis using True by (simp add: Cons_nth_drop_Suc[symmetric])
  qed
qed

lemma sort_Cons_min:
  "\<forall>y\<in>set ys. x \<le> y \<Longrightarrow> sort (x # ys) = x # sort ys"
  by (intro properties_for_sort) auto

lemma sort_left_head:
  assumes "i < length L" "sorted (drop i L)" "sorted (drop j R)" "j < length R" "L ! i \<le> R ! j"
  shows "sort (drop i L @ drop j R) = L ! i # sort (drop (i + 1) L @ drop j R)"
proof -
  have dl: "drop i L = L ! i # drop (i + 1) L" and dr: "drop j R = R ! j # drop (j + 1) R"
    using assms by (simp_all add: Cons_nth_drop_Suc)
  have "\<forall>y\<in>set (drop (i + 1) L). L ! i \<le> y" using assms(2) dl by (metis sorted_simps(2))
  moreover have "\<forall>y\<in>set (drop j R). R ! j \<le> y" using assms(3) dr
    by (metis order_refl set_ConsD sorted_simps(2))
  ultimately have "\<forall>y\<in>set (drop (i + 1) L @ drop j R). L ! i \<le> y"
    using assms(5) by auto
  from sort_Cons_min[OF this] show ?thesis using dl by simp
qed

lemma sort_right_head:
  assumes "i < length L" "sorted (drop i L)" "sorted (drop j R)" "j < length R" "\<not> L ! i \<le> R ! j"
  shows "sort (drop i L @ drop j R) = R ! j # sort (drop i L @ drop (j + 1) R)"
proof -
  have dl: "drop i L = L ! i # drop (i + 1) L" and dr: "drop j R = R ! j # drop (j + 1) R"
    using assms by (simp_all add: Cons_nth_drop_Suc)
  have "\<forall>y\<in>set (drop (j + 1) R). R ! j \<le> y" using assms(3) dr by (metis sorted_simps(2))
  moreover have "\<forall>y\<in>set (drop i L). L ! i \<le> y" using assms(2) dl
    by (metis order_refl set_ConsD sorted_simps(2))
  ultimately have "\<forall>y\<in>set (drop i L @ drop (j + 1) R). R ! j \<le> y"
    using assms(5) by auto
  from sort_Cons_min[OF this] have "sort (R ! j # drop i L @ drop (j + 1) R) = R ! j # sort (drop i L @ drop (j + 1) R)" .
  moreover have "mset (drop j R) = mset (R ! j # drop (j + 1) R)"
    using dr by simp
  then have "mset (drop i L @ drop j R) = mset (R ! j # drop i L @ drop (j + 1) R)"
    by simp
  ultimately show ?thesis by (metis properties_for_sort sorted_sort mset_sort)
qed


lemma merge_loops_sorted:
  "a = P @ Z @ B \<Longrightarrow> length P = k \<Longrightarrow> length Z = (length L - i) + (length R - j)
   \<Longrightarrow> i \<le> length L \<Longrightarrow> j \<le> length R \<Longrightarrow> sorted (drop i L) \<Longrightarrow> sorted (drop j R)
   \<Longrightarrow> merge_compare L R l m (i, j, k, a, ss) = (i1, j1, k1, st1)
   \<Longrightarrow> merge_copy L (i1, k1, st1) = (i2, k2, st2)
   \<Longrightarrow> merge_copy R (j1, k2, st2) = (j3, k3, a3, ss3)
   \<Longrightarrow> a3 = P @ sort (drop i L @ drop j R) @ B"
proof (induction L R l m "(i, j, k, a, ss)" arbitrary: i j k a ss P Z rule: merge_compare.induct)
  case (1 L R l m i j k a ss)
  show ?case
  proof (cases "i < length L \<and> j < length R")
    case False
    then have "merge_compare L R l m (i, j, k, a, ss) = (i, j, k, a, ss)"
      by (subst merge_compare.simps) auto
    then have e: "i1 = i" "j1 = j" "k1 = k" "st1 = (a, ss)" using "1.prems"(8) by simp_all
    show ?thesis
    proof (cases "i < length L")
      case True
      then have j: "j = length R" using False "1.prems"(5) by simp
      obtain a2 ss2 where st2: "st2 = (a2, ss2)" by (cases st2)
      have "a2 = P @ drop i L @ B \<and> k2 = k + (length L - i)"
        using merge_copy_writes[OF "1.prems"(1,2) _ "1.prems"(4)] "1.prems"(3,9) e j st2 by simp
      moreover have "merge_copy R (j1, k2, st2) = (j1, k2, st2)"
        unfolding e j st2 by (subst merge_copy.simps) simp
      ultimately show ?thesis using "1.prems"(10) st2 j "1.prems"(6)
        by (simp add: sort_key_id_if_sorted[where f="\<lambda>x. x", simplified])
    next
      case iL: False
      then have i: "i = length L" using "1.prems"(4) by simp
      have "merge_copy L (i1, k1, st1) = (i1, k1, st1)"
        unfolding e i by (subst merge_copy.simps) simp
      then have "merge_copy R (j, k, a, ss) = (j3, k3, a3, ss3)"
        using "1.prems"(9,10) e by simp
      from merge_copy_writes[OF "1.prems"(1,2) _ "1.prems"(5) this] "1.prems"(3) i
      have "a3 = P @ drop j R @ B" by simp
      then show ?thesis using i "1.prems"(7)
        by (simp add: sort_key_id_if_sorted[where f="\<lambda>x. x", simplified])
    qed
  next
    case True
    then obtain z Z' where Z: "Z = z # Z'" using "1.prems"(3) by (cases Z) auto
    let ?ss1 = "ss @ [(new_step Compare)\<lparr>array := Some a, indices := Some [l + i, m + 1 + j]\<rparr>]"
    show ?thesis
    proof (cases "L ! i \<le> R ! j")
      case le: True
      let ?a' = "a[k := L ! i]"
      let ?ss2 = "?ss1 @ [(new_step Place)\<lparr>array := Some ?a', indices := Some [k]\<rparr>]"
      have a': "?a' = (P @ [L ! i]) @ Z' @ B"
        using "1.prems"(1,2) Z by (simp add: list_update_append)
      have "merge_compare L R l m (i, j, k, a, ss) = merge_compare L R l m (i + 1, j, k + 1, ?a', ?ss2)"
        using True le by (subst merge_compare.simps) (simp add: Let_def)
      then have rec: "merge_compare L R l m (i + 1, j, k + 1, ?a', ?ss2) = (i1, j1, k1, st1)"
        using "1.prems"(8) by simp
      have "a3 = (P @ [L ! i]) @ sort (drop (i + 1) L @ drop j R) @ B"
      proof (rule "1.hyps"(1)[OF True refl le refl a' _ _ _ _ _ _ rec "1.prems"(9,10)])
        show "length (P @ [L ! i]) = k + 1" using "1.prems"(2) by simp
        show "length Z' = length L - (i + 1) + (length R - j)" using "1.prems"(3) Z True by simp
        show "i + 1 \<le> length L" using True by simp
        show "j \<le> length R" using True by simp
        show "sorted (drop (i + 1) L)" using "1.prems"(6) by (metis drop_Suc Suc_eq_plus1 sorted_tl tl_drop)
        show "sorted (drop j R)" by fact
      qed
      then show ?thesis
        using sort_left_head[OF _ "1.prems"(6,7) _ le] True by simp
    next
      case nle: False
      let ?a' = "a[k := R ! j]"
      let ?ss2 = "?ss1 @ [(new_step Place)\<lparr>array := Some ?a', indices := Some [k]\<rparr>]"
      have a': "?a' = (P @ [R ! j]) @ Z' @ B"
        using "1.prems"(1,2) Z by (simp add: list_update_append)
      have "merge_compare L R l m (i, j, k, a, ss) = merge_compare L R l m (i, j + 1, k + 1, ?a', ?ss2)"
        using True nle by (subst merge_compare.simps) (simp add: Let_def)
      then have rec: "merge_compare L R l m (i, j + 1, k + 1, ?a', ?ss2) = (i1, j1, k1, st1)"
        using "1.prems"(8) by simp
      have "a3 = (P @ [R ! j]) @ sort (drop i L @ drop (j + 1) R) @ B"
      proof (rule "1.hyps"(2)[OF True refl nle refl a' _ _ _ _ _ _ rec "1.prems"(9,10)])
        show "length (P @ [R ! j]) = k + 1" using "1.prems"(2) by simp
        show "length Z' = length L - i + (length R - (j + 1))" using "1.prems"(3) Z True by simp
        show "i \<le> length L" using True by simp
        show "j + 1 \<le> length R" using True by simp
        show "sorted (drop (j + 1) R)" using "1.prems"(7) by (metis drop_Suc Suc_eq_plus1 sorted_tl tl_drop)
        show "sorted (drop i L)" by fact
      qed
      then show ?thesis
        using sort_right_head[OF _ "1.prems"(6,7) _ nle] True by simp
    qed
  qed
qed


lemma merge_sorted:
  assumes a: "fst st = A @ X @ Y @ B" and A: "length A = l" and X: "length X = m + 1 - l"
    and Y: "length Y = r - m" and lm: "l \<le> m" and sX: "sorted X" and sY: "sorted Y"
  shows "fst (merge l m r d st) = A @ sort (X @ Y) @ B"
proof -
  obtain a0 ss where st: "st = (a0, ss)" by (cases st)
  have a0: "a0 = A @ (X @ Y) @ B" using a st by simp
  have L: "slice a0 l (m + 1) = X" using a0 A X by (simp add: slice_def)
  have "length (A @ X) = m + 1" using A X lm by simp
  then have "drop (m + 1) a0 = Y @ B" using a0 by (metis append.assoc append_eq_conv_conj)
  then have R: "slice a0 (m + 1) (r + 1) = Y" using Y by (simp add: slice_def)
  let ?ss1 = "ss @ [(new_step MergeStart)\<lparr>array := Some a0, range_lr := Some (l, r), depth := Some d\<rparr>]"
  obtain i1 j1 k1 st1 where c: "merge_compare X Y l m (0, 0, l, a0, ?ss1) = (i1, j1, k1, st1)"
    by (metis prod_cases4)
  obtain i2 k2 st2 where c2: "merge_copy X (i1, k1, st1) = (i2, k2, st2)"
    by (metis prod_cases3)
  obtain j3 k3 a3 ss3 where c3: "merge_copy Y (j1, k2, st2) = (j3, k3, a3, ss3)"
    by (metis prod_cases4)
  have "a3 = A @ sort (drop 0 X @ drop 0 Y) @ B"
    by (rule merge_loops_sorted[OF a0 A _ _ _ _ _ c c2 c3]) (simp_all add: sX sY)
  then show ?thesis using st L R c c2 c3 by (simp add: merge_def Let_def)
qed

lemma sort_sort_append: "sort (sort X @ sort Y) = sort (X @ (Y :: int list))"
  by (intro properties_for_sort) simp_all

lemma mergeSortHelper_sorted:
  "l \<le> r \<Longrightarrow> fst st = A @ X @ B \<Longrightarrow> length A = l \<Longrightarrow> length X = r + 1 - l
   \<Longrightarrow> fst (mergeSortHelper l r d st) = A @ sort X @ B"
proof (induction l r d st arbitrary: A X B rule: mergeSortHelper.induct)
  case (1 l r d a ss)
  show ?case
  proof (cases "l \<ge> r")
    case True
    then have "length X = 1" using "1.prems" by simp
    then obtain x where "X = [x]" by (cases X) auto
    moreover have "mergeSortHelper l r d (a, ss) = (a, ss)"
      using True by (subst mergeSortHelper.simps) simp
    ultimately show ?thesis using "1.prems"(2) by simp
  next
    case False
    define m where "m = (l + r) div 2"
    have m: "l \<le> m" "m < r" using False by (simp_all add: m_def)
    let ?ss1 = "ss @ [(new_step Divide)\<lparr>array := Some a, range_lr := Some (l, r),
                             mid := Some m, depth := Some d\<rparr>]"
    let ?X1 = "take (m + 1 - l) X" and ?X2 = "drop (m + 1 - l) X"
    have X1: "length ?X1 = m + 1 - l" and X2: "length ?X2 = r - m"
      using "1.prems"(4) m by simp_all
    let ?st1 = "mergeSortHelper l m (d + 1) (a, ?ss1)"
    let ?st2 = "mergeSortHelper (m + 1) r (d + 1) ?st1"
    have unf: "mergeSortHelper l r d (a, ss) = merge l m r d ?st2"
      using False by (subst mergeSortHelper.simps) (simp add: Let_def m_def)
    have "fst (a, ?ss1) = A @ ?X1 @ (?X2 @ B)" using "1.prems"(2) by simp
    from "1.IH"(1)[OF False m_def refl m(1) this "1.prems"(3) X1]
    have s1: "fst ?st1 = A @ sort ?X1 @ ?X2 @ B" by simp
    then have s1': "fst ?st1 = (A @ sort ?X1) @ ?X2 @ B" by simp
    have "fst ?st2 = (A @ sort ?X1) @ sort ?X2 @ B"
    proof (rule "1.IH"(2)[OF False m_def refl _ s1'])
      show "m + 1 \<le> r" using m by simp
      show "length (A @ sort ?X1) = m + 1" using "1.prems"(3) X1 m by simp
      show "length ?X2 = r + 1 - (m + 1)" using X2 by simp
    qed
    then have s2: "fst ?st2 = A @ sort ?X1 @ sort ?X2 @ B" by simp
    have "fst (merge l m r d ?st2) = A @ sort (sort ?X1 @ sort ?X2) @ B"
      by (rule merge_sorted[OF s2 "1.prems"(3) _ _ m(1)]) (use X1 X2 in simp_all)
    then show ?thesis unfolding unf by (simp add: sort_sort_append)
  qed
qed

lemma mergeSort_last:
  "\<exists>ss. mergeSort arr = ss @ [(new_step Complete)\<lparr>array := Some (sort arr),
       sorted_idx := Some [0..<length arr]\<rparr>]"
proof -
  let ?st0 = "(arr, [(new_step Init)\<lparr>array := Some arr\<rparr>])"
  obtain af sf where r: "mergeSortHelper 0 (length arr - 1) 0 ?st0 = (af, sf)"
    by (metis surj_pair)
  have "af = sort arr"
  proof (cases "arr = []")
    case True
    then have "mergeSortHelper 0 (length arr - 1) 0 ?st0 = ?st0"
      by (subst mergeSortHelper.simps) simp
    then show ?thesis using r True by simp
  next
    case False
    have "fst (mergeSortHelper 0 (length arr - 1) 0 ?st0) = [] @ sort arr @ []"
      by (rule mergeSortHelper_sorted) (use False in simp_all)
    then show ?thesis using r by simp
  qed
  then show ?thesis using r by (simp add: mergeSort_def Let_def)
qed


text \<open>
  Claim C1. For every input array, each of \<open>bubbleSort\<close>, \<open>insertionSort\<close> and
  \<open>mergeSort\<close> returns a sequence whose last step is a \<open>complete\<close> step; its array
  snapshot is the input sorted in ascending order and its \<open>sorted\<close> field lists all the
  indices 0, ..., n - 1.
\<close>

theorem sorts_end_complete_sorted:
  "type (last (bubbleSort arr)) = Complete
   \<and> array (last (bubbleSort arr)) = Some (sort arr)
   \<and> sorted_idx (last (bubbleSort arr)) = Some [0..<length arr]
   \<and> type (last (insertionSort arr)) = Complete
   \<and> array (last (insertionSort arr)) = Some (sort arr)
   \<and> sorted_idx (last (insertionSort arr)) = Some [0..<length arr]
   \<and> type (last (mergeSort arr)) = Complete
   \<and> array (last (mergeSort arr)) = Some (sort arr)
   \<and> sorted_idx (last (mergeSort arr)) = Some [0..<length arr]"
proof -
  obtain s1 s2 s3 where
    "bubbleSort arr = s1 @ [(new_step Complete)\<lparr>array := Some (sort arr),
       sorted_idx := Some [0..<length arr]\<rparr>]"
    "insertionSort arr = s2 @ [(new_step Complete)\<lparr>array := Some (sort arr),
       sorted_idx := Some [0..<length arr]\<rparr>]"
    "mergeSort arr = s3 @ [(new_step Complete)\<lparr>array := Some (sort arr),
       sorted_idx := Some [0..<length arr]\<rparr>]"
    using bubbleSort_last insertionSort_last mergeSort_last by blast
  then show ?thesis by (simp add: new_step_def)
qed

theorem sorts_end_complete_sorted_witness:
  "array (last (bubbleSort [5, 3, 8, 1])) = Some [1, 3, 5, 8]
   \<and> array (last (insertionSort [5, 3, 8, 1])) = Some [1, 3, 5, 8]
   \<and> array (last (mergeSort [5, 3, 8, 1])) = Some [1, 3, 5, 8]
   \<and> sorted_idx (last (mergeSort [5, 3, 8, 1])) = Some [0, 1, 2, 3]"
  using sorts_end_complete_sorted [of "[5, 3, 8, 1]"] by (simp add: upt_rec)

section \<open>Graph traversal: the start position of bfs\<close>

text \<open>
  A step's \<open>visited\<close> snapshot holds a position; the size of the snapshot (the number a
  \<open>complete\<close> step's description prints as \<open>visited.size\<close>).
\<close>

definition snapshot_has :: "pos \<Rightarrow> step \<Rightarrow> bool" where
  "snapshot_has p s = (case visited s of None \<Rightarrow> False | Some v \<Rightarrow> p \<in> set v)"

definition visited_size :: "step \<Rightarrow> nat" where
  "visited_size s = (case visited s of None \<Rightarrow> 0 | Some v \<Rightarrow> length v)"

definition bfs_keeps :: "pos \<Rightarrow> bfs_state \<Rightarrow> bool" where
  "bfs_keeps p st = (case st of (queue, vis, ss) \<Rightarrow> p \<in> set vis \<and> list_all (snapshot_has p) ss)"

lemma bfs_discover_keeps:
  "bfs_keeps p st \<Longrightarrow> bfs_keeps p (bfs_discover walls cur nb st)"
  by (cases st) (auto simp: bfs_keeps_def bfs_discover_def Let_def set_add_def snapshot_has_def new_step_def)

lemma bfs_discover_fold_keeps:
  "bfs_keeps p st \<Longrightarrow> bfs_keeps p (fold (bfs_discover walls cur) nbs st)"
  by (induction nbs arbitrary: st) (simp_all add: bfs_discover_keeps)

lemma bfs_loop_keeps:
  "bfs_keeps p st \<Longrightarrow> bfs_keeps p (bfs_loop rows cols walls st)"
proof (induction rows cols walls st rule: bfs_loop.induct)
  case (1 rows cols walls queue vis ss)
  show ?case
  proof (cases queue)
    case Nil
    then show ?thesis using 1 by simp
  next
    case (Cons cur rest)
    have "bfs_keeps p (rest, vis, ss @ [(new_step Visit)\<lparr>current := Some cur, visited := Some vis\<rparr>])"
      using "1.prems" by (simp add: bfs_keeps_def snapshot_has_def new_step_def)
    from bfs_discover_fold_keeps[OF this]
    show ?thesis using "1.IH"[OF Cons] Cons by simp
  qed
qed

text \<open>
  Claim C10. With the start position in the wall set, \<open>bfs\<close> still has it in \<open>visited\<close>
  before the loop: every emitted step's \<open>visited\<close> snapshot holds the start, the last step
  is the \<open>complete\<close> step and the visited count it reports is at least 1.
\<close>

theorem bfs_start_wall_visited:
  "start_p \<in> walls \<Longrightarrow>
     list_all (snapshot_has start_p) (bfs rows cols start_p walls)
     \<and> type (last (bfs rows cols start_p walls)) = Complete
     \<and> 1 \<le> visited_size (last (bfs rows cols start_p walls))"
proof -
  let ?ss0 = "[(new_step Init)\<lparr>current := Some start_p, visited := Some [start_p]\<rparr>]"
  obtain q v ss where r: "bfs_loop rows cols walls ([start_p], [start_p], ?ss0) = (q, v, ss)"
    by (metis prod_cases3)
  have "bfs_keeps start_p ([start_p], [start_p], ?ss0)"
    by (simp add: bfs_keeps_def snapshot_has_def new_step_def)
  from bfs_loop_keeps[OF this, of rows cols walls] r
  have k: "start_p \<in> set v" "list_all (snapshot_has start_p) ss" by (simp_all add: bfs_keeps_def)
  have b: "bfs rows cols start_p walls = ss @ [(new_step Complete)\<lparr>visited := Some v\<rparr>]"
    using r by (simp add: bfs_def set_add_def q_enqueue_def Let_def)
  have "1 \<le> length v" using k(1) by (cases v) simp_all
  then show ?thesis using k b by (simp add: snapshot_has_def visited_size_def new_step_def)
qed

theorem bfs_start_wall_visited_witness:
  "(0, 0) \<in> {(0, 0), (1, 1)}
   \<and> list_all (snapshot_has (0, 0)) (bfs 2 2 (0, 0) {(0, 0), (1, 1)})
   \<and> 1 \<le> visited_size (last (bfs 2 2 (0, 0) {(0, 0), (1, 1)}))"
  using bfs_start_wall_visited [of "(0, 0)" "{(0, 0), (1, 1)}" 2 2] by simp

section \<open>What a generator appends to its steps\<close>

definition extends_with :: "(step \<Rightarrow> bool) \<Rightarrow> step list \<Rightarrow> step list \<Rightarrow> bool" where
  "extends_with P ss ss' = (\<exists>new. ss' = ss @ new \<and> list_all P new)"

lemma extends_with_refl [simp]: "extends_with P ss ss"
  by (simp add: extends_with_def)

lemma extends_with_snoc: "P s \<Longrightarrow> extends_with P ss (ss @ [s])"
  by (simp add: extends_with_def)

lemma extends_with_trans:
  "extends_with P ss ss' \<Longrightarrow> extends_with P ss' ss'' \<Longrightarrow> extends_with P ss ss''"
  by (auto simp: extends_with_def)

lemma extends_with_snoc_trans:
  "extends_with P ss ss' \<Longrightarrow> P s \<Longrightarrow> extends_with P ss (ss' @ [s])"
  by (auto simp: extends_with_def)

lemma extends_with_first:
  "P s \<Longrightarrow> extends_with P (ss @ [s]) ss' \<Longrightarrow> extends_with P ss ss'"
  by (auto simp: extends_with_def)

lemma extends_with_mono:
  "extends_with P ss ss' \<Longrightarrow> (\<And>s. P s \<Longrightarrow> Q s) \<Longrightarrow> extends_with Q ss ss'"
  by (auto simp: extends_with_def list_all_iff)

lemma type_new_step [simp]: "type (new_step t) = t"
  by (simp add: new_step_def)

definition dfs_kind :: "step \<Rightarrow> bool" where
  "dfs_kind s = (type s = Visit \<or> type s = Discover \<or> type s = Backtrack)"

lemma dfs_appends:
  "extends_with dfs_kind (snd st) (snd (dfsHelper rows cols walls nd d st))"
  "extends_with dfs_kind (snd st) (snd (dfs_neighbors rows cols walls nd d nbs st))"
proof (induction rows cols walls nd d st and rows cols walls nd d nbs st rule: dfsHelper_dfs_neighbors.induct)
  case (1 rows cols walls nd d vis ss)
  show ?case
  proof (cases "set_has nd vis \<or> nd \<in> walls")
    case True
    then show ?thesis by auto
  next
    case False
    have k: "dfs_kind ((new_step Visit)\<lparr>current := Some nd, visited := Some (set_add nd vis),
                             depth := Some d\<rparr>)"
      by (simp add: dfs_kind_def)
    have ih: "extends_with dfs_kind
        (ss @ [(new_step Visit)\<lparr>current := Some nd, visited := Some (set_add nd vis),
                             depth := Some d\<rparr>])
        (snd (dfs_neighbors rows cols walls nd d (getNeighbors (row nd) (col nd) rows cols)
           (set_add nd vis, ss @ [(new_step Visit)\<lparr>current := Some nd,
              visited := Some (set_add nd vis), depth := Some d\<rparr>])))"
      using "1.IH"[OF False refl refl] by simp
    from extends_with_first[where P=dfs_kind, OF k ih]
    show ?thesis using False by (simp add: Let_def)
  qed
next
  case (2 rows cols walls nd d vis ss)
  show ?case by simp
next
  case (3 rows cols walls nd d nb rest vis ss)
  show ?case
  proof (cases "\<not> set_has nb vis \<and> nb \<notin> walls")
    case False
    then show ?thesis using "3.IH"(3)[OF False] by auto
  next
    case True
    let ?ss1 = "ss @ [(new_step Discover)\<lparr>current := Some nd, neighbor := Some nb,
                             visited := Some vis, depth := Some (d + 1)\<rparr>]"
    obtain vis2 ss2 where h: "dfsHelper rows cols walls nb (d + 1) (vis, ?ss1) = (vis2, ss2)"
      by (metis surj_pair)
    let ?ss3 = "ss2 @ [(new_step Backtrack)\<lparr>current := Some nb, parent := Some nd,
                                    visited := Some vis2\<rparr>]"
    have a: "extends_with dfs_kind ?ss1 ss2" using "3.IH"(1)[OF True refl] h by simp
    have b: "extends_with dfs_kind ?ss3 (snd (dfs_neighbors rows cols walls nd d rest (vis2, ?ss3)))"
      using "3.IH"(2)[OF True refl h[symmetric]] by simp
    have "extends_with dfs_kind ss ?ss3"
      by (rule extends_with_snoc_trans[OF extends_with_first[where P=dfs_kind, OF _ a]]) (simp_all add: dfs_kind_def)
    from extends_with_trans[OF this b] show ?thesis using True h by (simp add: Let_def)
  qed
qed

lemma dfs_shape:
  "\<exists>vis new. dfs rows cols start_p walls =
      [(new_step Init)\<lparr>current := Some start_p, visited := Some []\<rparr>] @ new
        @ [(new_step Complete)\<lparr>visited := Some vis\<rparr>] \<and> list_all dfs_kind new"
proof -
  let ?ss0 = "[(new_step Init)\<lparr>current := Some start_p, visited := Some []\<rparr>]"
  obtain vis ss where h: "dfsHelper rows cols walls start_p 0 ([], ?ss0) = (vis, ss)"
    by (metis surj_pair)
  have "extends_with dfs_kind ?ss0 ss" using dfs_appends(1)[of "([], ?ss0)" rows cols walls start_p 0] h by simp
  then show ?thesis using h by (auto simp: dfs_def Let_def extends_with_def)
qed

text \<open>
  Claim C6, as the code has it. A call of \<open>dfsHelper\<close> on a visited position or on a wall
  returns at once and leaves \<open>steps\<close> as it is; no sequence of \<open>dfs\<close> contains a
  \<open>null-node\<close> step; and the loop only ever calls \<open>dfsHelper\<close> on cells inside the grid,
  since \<open>getNeighbors\<close> returns no other.
\<close>

theorem dfs_skips_without_step:
  "(set_has nd vis \<or> nd \<in> walls \<longrightarrow> dfsHelper rows cols walls nd d (vis, ss) = (vis, ss))
   \<and> list_all (\<lambda>s. type s \<noteq> NullNode) (dfs rows cols start_p walls)
   \<and> list_all (\<lambda>nb. nb \<in> grid_cells rows cols) (getNeighbors (row nd) (col nd) rows cols)"
proof (intro conjI)
  show "set_has nd vis \<or> nd \<in> walls \<longrightarrow> dfsHelper rows cols walls nd d (vis, ss) = (vis, ss)"
    by simp
  obtain v new where "dfs rows cols start_p walls =
      [(new_step Init)\<lparr>current := Some start_p, visited := Some []\<rparr>] @ new
        @ [(new_step Complete)\<lparr>visited := Some v\<rparr>]" and "list_all dfs_kind new"
    using dfs_shape by blast
  then show "list_all (\<lambda>s. type s \<noteq> NullNode) (dfs rows cols start_p walls)"
    by (auto simp: list_all_iff dfs_kind_def)
  show "list_all (\<lambda>nb. nb \<in> grid_cells rows cols) (getNeighbors (row nd) (col nd) rows cols)"
    using getNeighbors_in_grid[of "row nd" "col nd" rows cols] by (auto simp: list_all_iff)
qed

theorem dfs_skips_without_step_witness:
  "dfsHelper 1 1 {(0, 0)} (0, 0) 0 ([], []) = ([], [])
   \<and> list_all (\<lambda>s. type s \<noteq> NullNode) (dfs 2 2 (0, 0) {(0, 1)})"
  using dfs_skips_without_step [of "(0, 0)" "[]" "{(0, 0)}" 1 1 0 "[]" "(0, 0)"]
    dfs_skips_without_step [of "(0, 0)" "[]" "{(0, 1)}" 2 2 0 "[]" "(0, 0)"]
  by simp

text \<open>
  The claim as stated fails where the start position is a wall: the one call of
  \<open>dfsHelper\<close> is on a wall, and the sequence is \<open>init\<close>, \<open>complete\<close>.
\<close>

theorem dfs_wall_call_counterexample:
  "(0, 0) \<in> {(0, 0) :: pos}
   \<and> map type (dfs 1 1 (0, 0) {(0, 0)}) = [Init, Complete]
   \<and> NullNode \<notin> set (map type (dfs 1 1 (0, 0) {(0, 0)}))"
  by (simp add: dfs_def set_has_def)

section \<open>Every sequence is well bracketed\<close>

text \<open>
  The terminal step types, and the steps in between: neither \<open>init\<close> nor terminal.
  A sequence is well bracketed when its first step is the only \<open>init\<close> step and its last
  step the only terminal one.
\<close>

definition terminal_type :: "step_type \<Rightarrow> bool" where
  "terminal_type t = (t = Complete \<or> t = NoPath \<or> t = PathFound)"

definition mid_kind :: "step \<Rightarrow> bool" where
  "mid_kind s = (type s \<noteq> Init \<and> \<not> terminal_type (type s))"

definition well_bracketed :: "step list \<Rightarrow> bool" where
  "well_bracketed ss =
     (case ss of
        [] \<Rightarrow> False
      | s # rest \<Rightarrow>
          type s = Init \<and> rest \<noteq> [] \<and> terminal_type (type (last rest))
          \<and> list_all mid_kind (butlast rest))"

lemma well_bracketedI:
  "type i = Init \<Longrightarrow> extends_with mid_kind [i] ss \<Longrightarrow> terminal_type (type t)
   \<Longrightarrow> well_bracketed (ss @ [t])"
  by (auto simp: well_bracketed_def extends_with_def)

lemma mid_kind_simps [simp]:
  "type s = Pass \<Longrightarrow> mid_kind s" "type s = Compare \<Longrightarrow> mid_kind s" "type s = Swap \<Longrightarrow> mid_kind s"
  "type s = EarlyExit \<Longrightarrow> mid_kind s" "type s = Select \<Longrightarrow> mid_kind s" "type s = Shift \<Longrightarrow> mid_kind s"
  "type s = Insert \<Longrightarrow> mid_kind s" "type s = Divide \<Longrightarrow> mid_kind s" "type s = MergeStart \<Longrightarrow> mid_kind s"
  "type s = Place \<Longrightarrow> mid_kind s" "type s = MergeComplete \<Longrightarrow> mid_kind s" "type s = Visit \<Longrightarrow> mid_kind s"
  "type s = Discover \<Longrightarrow> mid_kind s" "type s = Backtrack \<Longrightarrow> mid_kind s" "type s = Update \<Longrightarrow> mid_kind s"
  "type s = NullNode \<Longrightarrow> mid_kind s" "type s = Recurse \<Longrightarrow> mid_kind s" "type s = Return \<Longrightarrow> mid_kind s"
  by (simp_all add: mid_kind_def terminal_type_def)

lemma extends_with_append_iff [simp]: "extends_with P ss (ss @ new) = list_all P new"
  by (simp add: extends_with_def)

lemma extends_with_pre:
  "extends_with P (ss @ new) ss' \<Longrightarrow> list_all P new \<Longrightarrow> extends_with P ss ss'"
  by (auto simp: extends_with_def)

lemma extends_with_post:
  "extends_with P ss ss' \<Longrightarrow> list_all P new \<Longrightarrow> extends_with P ss (ss' @ new)"
  by (auto simp: extends_with_def)

lemma extends_with_fold:
  assumes "\<And>x st. extends_with P (pr st) (pr (f x st))"
  shows "extends_with P (pr st) (pr (fold f xs st))"
proof (induction xs arbitrary: st)
  case Nil
  show ?case by simp
next
  case (Cons x xs)
  show ?case using extends_with_trans[OF assms[of st x] Cons[of "f x st"]] by simp
qed

subsection \<open>Sorting\<close>

lemma bubble_compare_appends:
  "extends_with mid_kind (snd (snd st)) (snd (snd (bubble_compare n i j st)))"
  by (cases st) (simp add: bubble_compare_def Let_def)

lemma bubble_passes_appends:
  "extends_with mid_kind (snd st) (snd (bubble_passes n i st))"
proof (induction n i st rule: bubble_passes.induct)
  case (1 n i a ss)
  show ?case
  proof (cases "int i < int n - 1")
    case False
    then show ?thesis by (simp add: bubble_passes.simps[of n i a ss])
  next
    case True
    let ?ss1 = "ss @ [(new_step Pass)\<lparr>array := Some a, sorted_idx := Some (desc_from n (n - i))\<rparr>]"
    obtain a' sw ss2 where r: "fold (bubble_compare n i) [0..<n - i - 1] (a, False, ?ss1) = (a', sw, ss2)"
      by (metis prod_cases3)
    have "extends_with mid_kind ?ss1 ss2"
      using extends_with_fold[where pr="\<lambda>st. snd (snd st)" and f="bubble_compare n i" and P=mid_kind,
          OF bubble_compare_appends, of "(a, False, ?ss1)" "[0..<n - i - 1]"] r by simp
    then have e: "extends_with mid_kind ss ss2"
      by (rule extends_with_pre) simp
    show ?thesis
    proof (cases sw)
      case False
      then show ?thesis using True r extends_with_post[OF e, of "[(new_step EarlyExit)\<lparr>array := Some a',
                                      sorted_idx := Some [0..<n]\<rparr>]"]
        by (simp add: bubble_passes.simps[of n i a ss] Let_def)
    next
      case sw: True
      have "extends_with mid_kind ss2 (snd (bubble_passes n (i + 1) (a', ss2)))"
        using "1.IH"[OF True refl r[symmetric] refl] sw by simp
      from extends_with_trans[OF e this] show ?thesis using True r sw
        by (simp add: bubble_passes.simps[of n i a ss] Let_def)
    qed
  qed
qed

lemma bubbleSort_bracketed: "well_bracketed (bubbleSort arr)"
proof -
  let ?i = "(new_step Init)\<lparr>array := Some arr\<rparr>"
  obtain a ss where r: "bubble_passes (length arr) 0 (arr, [?i]) = (a, ss)" by (metis surj_pair)
  have "extends_with mid_kind [?i] ss"
    using bubble_passes_appends[of "(arr, [?i])" "length arr" 0] r by simp
  then have "well_bracketed (ss @ [(new_step Complete)\<lparr>array := Some a, sorted_idx := Some [0..<length arr]\<rparr>])"
    by (intro well_bracketedI[where i="?i"]) (simp_all add: terminal_type_def)
  then show ?thesis using r by (simp add: bubbleSort_def Let_def)
qed

lemma insertion_shift_appends:
  "extends_with mid_kind (snd st) (snd (snd (insertion_shift key i j st)))"
proof (induction key i j st rule: insertion_shift.induct)
  case (1 key i j a ss)
  show ?case
  proof (cases "j \<ge> 0 \<and> a ! nat j > key")
    case False
    then show ?thesis by (auto simp: insertion_shift.simps[of key i j a ss])
  next
    case True
    let ?c = "(new_step Compare)\<lparr>array := Some a, indices := Some [nat j, nat j + 1],
                            sorted_idx := Some [0..<i]\<rparr>"
    let ?a' = "a[nat j + 1 := a ! nat j]"
    let ?s = "(new_step Shift)\<lparr>array := Some ?a', indices := Some [nat j, nat j + 1],
                              sorted_idx := Some [0..<i]\<rparr>"
    have "extends_with mid_kind ((ss @ [?c]) @ [?s]) (snd (snd (insertion_shift key i (j - 1) (?a', (ss @ [?c]) @ [?s]))))"
      using "1.IH"[OF True refl refl refl] by simp
    then have "extends_with mid_kind ss (snd (snd (insertion_shift key i (j - 1) (?a', (ss @ [?c]) @ [?s]))))"
      using extends_with_pre[where P=mid_kind and ss=ss and new="[?c, ?s]"] by simp
    then show ?thesis using True by (simp add: insertion_shift.simps[of key i j a ss] Let_def)
  qed
qed

lemma insertion_insert_appends:
  "extends_with mid_kind (snd st) (snd (insertion_insert i st))"
proof -
  obtain a ss where st: "st = (a, ss)" by (cases st)
  let ?sel = "(new_step Select)\<lparr>array := Some a, indices := Some [i], sorted_idx := Some [0..<i]\<rparr>"
  obtain j a1 ss2 where r: "insertion_shift (a ! i) i (int i - 1) (a, ss @ [?sel]) = (j, a1, ss2)"
    by (metis prod_cases3)
  have "extends_with mid_kind (ss @ [?sel]) ss2"
    using insertion_shift_appends[of "(a, ss @ [?sel])" "a ! i" i "int i - 1"] r by simp
  then have "extends_with mid_kind ss ss2"
    by (rule extends_with_pre) simp
  then have "extends_with mid_kind ss (ss2 @ [(new_step Insert)\<lparr>array := Some (a1[nat (j + 1) := a ! i]),
       indices := Some [nat (j + 1)], sorted_idx := Some [0..<i + 1]\<rparr>])"
    by (rule extends_with_post) simp
  then show ?thesis using st r by (simp add: insertion_insert_def Let_def)
qed

lemma insertionSort_bracketed: "well_bracketed (insertionSort arr)"
proof -
  let ?i = "(new_step Init)\<lparr>array := Some arr\<rparr>"
  obtain a ss where r: "fold insertion_insert [1..<length arr] (arr, [?i]) = (a, ss)" by (metis surj_pair)
  have "extends_with mid_kind [?i] ss"
    using extends_with_fold[where pr=snd and f=insertion_insert and P=mid_kind,
        OF insertion_insert_appends, of "(arr, [?i])" "[1..<length arr]"] r by simp
  then have "well_bracketed (ss @ [(new_step Complete)\<lparr>array := Some a, sorted_idx := Some [0..<length arr]\<rparr>])"
    by (intro well_bracketedI[where i="?i"]) (simp_all add: terminal_type_def)
  then show ?thesis using r by (simp add: insertionSort_def Let_def)
qed


lemma merge_copy_appends:
  "extends_with mid_kind (snd (snd (snd st))) (snd (snd (snd (merge_copy src st))))"
proof (induction src st rule: merge_copy.induct)
  case (1 src i k a ss)
  show ?case
  proof (cases "i < length src")
    case False
    then show ?thesis by (simp add: merge_copy.simps[of src i k a ss])
  next
    case True
    let ?p = "(new_step Place)\<lparr>array := Some (a[k := src ! i]), indices := Some [k]\<rparr>"
    have "extends_with mid_kind (ss @ [?p])
        (snd (snd (snd (merge_copy src (i + 1, k + 1, a[k := src ! i], ss @ [?p])))))"
      using "1.IH"[OF True refl] by simp
    then have "extends_with mid_kind ss
        (snd (snd (snd (merge_copy src (i + 1, k + 1, a[k := src ! i], ss @ [?p])))))"
      by (rule extends_with_pre) simp
    then show ?thesis using True by (simp add: merge_copy.simps[of src i k a ss] Let_def)
  qed
qed

lemma merge_compare_appends:
  "extends_with mid_kind (snd (snd (snd (snd st))))
     (snd (snd (snd (snd (merge_compare leftArr rightArr l m st)))))"
proof (induction leftArr rightArr l m st rule: merge_compare.induct)
  case (1 leftArr rightArr l m i j k a ss)
  let ?c = "(new_step Compare)\<lparr>array := Some a, indices := Some [l + i, m + 1 + j]\<rparr>"
  show ?case
  proof (cases "i < length leftArr \<and> j < length rightArr")
    case False
    then show ?thesis by (auto simp: merge_compare.simps[of leftArr rightArr l m i j k a ss])
  next
    case True
    show ?thesis
    proof (cases "leftArr ! i \<le> rightArr ! j")
      case le: True
      let ?a' = "a[k := leftArr ! i]"
      let ?p = "(new_step Place)\<lparr>array := Some ?a', indices := Some [k]\<rparr>"
      have "extends_with mid_kind ((ss @ [?c]) @ [?p])
          (snd (snd (snd (snd (merge_compare leftArr rightArr l m (i + 1, j, k + 1, ?a', (ss @ [?c]) @ [?p]))))))"
        using "1.IH"(1)[OF True refl le refl] by simp
      then have "extends_with mid_kind ss
          (snd (snd (snd (snd (merge_compare leftArr rightArr l m (i + 1, j, k + 1, ?a', (ss @ [?c]) @ [?p]))))))"
        using extends_with_pre[where P=mid_kind and ss=ss and new="[?c, ?p]"] by simp
      then show ?thesis using True le
        by (simp add: merge_compare.simps[of leftArr rightArr l m i j k a ss] Let_def)
    next
      case nle: False
      let ?a' = "a[k := rightArr ! j]"
      let ?p = "(new_step Place)\<lparr>array := Some ?a', indices := Some [k]\<rparr>"
      have "extends_with mid_kind ((ss @ [?c]) @ [?p])
          (snd (snd (snd (snd (merge_compare leftArr rightArr l m (i, j + 1, k + 1, ?a', (ss @ [?c]) @ [?p]))))))"
        using "1.IH"(2)[OF True refl nle refl] by simp
      then have "extends_with mid_kind ss
          (snd (snd (snd (snd (merge_compare leftArr rightArr l m (i, j + 1, k + 1, ?a', (ss @ [?c]) @ [?p]))))))"
        using extends_with_pre[where P=mid_kind and ss=ss and new="[?c, ?p]"] by simp
      then show ?thesis using True nle
        by (simp add: merge_compare.simps[of leftArr rightArr l m i j k a ss] Let_def)
    qed
  qed
qed

lemma merge_appends:
  "extends_with mid_kind (snd st) (snd (merge l m r d st))"
proof -
  obtain a ss where st: "st = (a, ss)" by (cases st)
  let ?L = "slice a l (m + 1)" and ?R = "slice a (m + 1) (r + 1)"
  let ?ms = "(new_step MergeStart)\<lparr>array := Some a, range_lr := Some (l, r), depth := Some d\<rparr>"
  obtain i1 j1 k1 a1 ss1 where c: "merge_compare ?L ?R l m (0, 0, l, a, ss @ [?ms]) = (i1, j1, k1, a1, ss1)"
    by (metis prod_cases5)
  obtain i2 k2 a2 ss2 where c2: "merge_copy ?L (i1, k1, a1, ss1) = (i2, k2, a2, ss2)"
    by (metis prod_cases4)
  obtain j3 k3 a3 ss3 where c3: "merge_copy ?R (j1, k2, a2, ss2) = (j3, k3, a3, ss3)"
    by (metis prod_cases4)
  have "extends_with mid_kind (ss @ [?ms]) ss1"
    using merge_compare_appends[of "(0, 0, l, a, ss @ [?ms])" ?L ?R l m] c by simp
  then have "extends_with mid_kind ss ss1" by (rule extends_with_pre) simp
  moreover have "extends_with mid_kind ss1 ss2"
    using merge_copy_appends[of "(i1, k1, a1, ss1)" ?L] c2 by simp
  moreover have "extends_with mid_kind ss2 ss3"
    using merge_copy_appends[of "(j1, k2, a2, ss2)" ?R] c3 by simp
  ultimately have "extends_with mid_kind ss ss3" by (blast intro: extends_with_trans)
  then have "extends_with mid_kind ss (ss3 @ [(new_step MergeComplete)\<lparr>array := Some a3,
                                       range_lr := Some (l, r)\<rparr>])"
    by (rule extends_with_post) simp
  then show ?thesis using st c c2 c3 by (simp add: merge_def Let_def)
qed

lemma mergeSortHelper_appends:
  "extends_with mid_kind (snd st) (snd (mergeSortHelper l r d st))"
proof (induction l r d st rule: mergeSortHelper.induct)
  case (1 l r d a ss)
  show ?case
  proof (cases "l \<ge> r")
    case True
    then show ?thesis by (simp add: mergeSortHelper.simps[of l r d a ss])
  next
    case False
    define m where "m = (l + r) div 2"
    let ?dv = "(new_step Divide)\<lparr>array := Some a, range_lr := Some (l, r),
                             mid := Some m, depth := Some d\<rparr>"
    let ?st1 = "mergeSortHelper l m (d + 1) (a, ss @ [?dv])"
    let ?st2 = "mergeSortHelper (m + 1) r (d + 1) ?st1"
    have "extends_with mid_kind (ss @ [?dv]) (snd ?st1)"
      using "1.IH"(1)[OF False m_def refl] by simp
    then have "extends_with mid_kind ss (snd ?st1)" by (rule extends_with_pre) simp
    moreover have "extends_with mid_kind (snd ?st1) (snd ?st2)"
      using "1.IH"(2)[OF False m_def refl] by simp
    moreover have "extends_with mid_kind (snd ?st2) (snd (merge l m r d ?st2))"
      by (rule merge_appends)
    ultimately have "extends_with mid_kind ss (snd (merge l m r d ?st2))"
      by (blast intro: extends_with_trans)
    then show ?thesis using False by (simp add: mergeSortHelper.simps[of l r d a ss] Let_def m_def)
  qed
qed

lemma mergeSort_bracketed: "well_bracketed (mergeSort arr)"
proof -
  let ?i = "(new_step Init)\<lparr>array := Some arr\<rparr>"
  obtain a ss where r: "mergeSortHelper 0 (length arr - 1) 0 (arr, [?i]) = (a, ss)" by (metis surj_pair)
  have "extends_with mid_kind [?i] ss"
    using mergeSortHelper_appends[of "(arr, [?i])" 0 "length arr - 1" 0] r by simp
  then have "well_bracketed (ss @ [(new_step Complete)\<lparr>array := Some a, sorted_idx := Some [0..<length a]\<rparr>])"
    by (intro well_bracketedI[where i="?i"]) (simp_all add: terminal_type_def)
  then show ?thesis using r by (simp add: mergeSort_def Let_def)
qed

subsection \<open>Tree traversals\<close>

lemma type_tree_steps [simp]:
  "type (null_node_step cs d) = NullNode" "type (visit_node_step n cs d) = Visit"
  "type (recurse_step n dir cs) = Recurse" "type (return_step n cs) = Return"
  by (simp_all add: null_node_step_def visit_node_step_def recurse_step_def return_step_def)

lemma preorder_appends:
  "extends_with mid_kind (snd st) (snd (preorder_traverse t d st))"
proof (induction t arbitrary: d st)
  case Null
  show ?case by (cases st) simp
next
  case (Node i v l r)
  obtain cs ss where st: "st = (cs, ss)" by (cases st)
  let ?n = "Node i v l r"
  let ?cs1 = "cs @ [(''preorder'', v)]"
  let ?ss2 = "(ss @ [visit_node_step ?n ?cs1 d]) @ [recurse_step ?n ''left'' ?cs1]"
  obtain cs3 ss3 where a: "preorder_traverse l (d + 1) (?cs1, ?ss2) = (cs3, ss3)" by (metis surj_pair)
  obtain cs4 ss4 where b: "preorder_traverse r (d + 1) (cs3, ss3 @ [recurse_step ?n ''right'' cs3]) = (cs4, ss4)"
    by (metis surj_pair)
  have "extends_with mid_kind ?ss2 ss3" using Node.IH(1)[where d="d + 1" and st="(?cs1, ?ss2)"] a by simp
  then have 1: "extends_with mid_kind ss ss3"
    using extends_with_pre[where P=mid_kind and ss=ss
        and new="[visit_node_step ?n ?cs1 d, recurse_step ?n ''left'' ?cs1]"] by simp
  have "extends_with mid_kind (ss3 @ [recurse_step ?n ''right'' cs3]) ss4"
    using Node.IH(2)[where d="d + 1" and st="(cs3, ss3 @ [recurse_step ?n ''right'' cs3])"] b by simp
  then have 2: "extends_with mid_kind ss3 ss4" by (rule extends_with_pre) simp
  have "extends_with mid_kind ss (ss4 @ [return_step ?n (butlast cs4)])"
    by (rule extends_with_post[OF extends_with_trans[OF 1 2]]) simp
  then show ?case using st a b by (simp add: Let_def)
qed

lemma inorder_appends:
  "extends_with mid_kind (snd st) (snd (inorder_traverse t d st))"
proof (induction t arbitrary: d st)
  case Null
  show ?case by (cases st) simp
next
  case (Node i v l r)
  obtain cs ss where st: "st = (cs, ss)" by (cases st)
  let ?n = "Node i v l r"
  let ?cs1 = "cs @ [(''inorder'', v)]"
  let ?ss1 = "ss @ [recurse_step ?n ''left'' ?cs1]"
  obtain cs2 ss2 where a: "inorder_traverse l (d + 1) (?cs1, ?ss1) = (cs2, ss2)" by (metis surj_pair)
  let ?ss4 = "(ss2 @ [visit_node_step ?n cs2 d]) @ [recurse_step ?n ''right'' cs2]"
  obtain cs5 ss5 where b: "inorder_traverse r (d + 1) (cs2, ?ss4) = (cs5, ss5)"
    by (metis surj_pair)
  have "extends_with mid_kind ?ss1 ss2" using Node.IH(1)[where d="d + 1" and st="(?cs1, ?ss1)"] a by simp
  then have 1: "extends_with mid_kind ss ss2" by (rule extends_with_pre) simp
  have "extends_with mid_kind ?ss4 ss5" using Node.IH(2)[where d="d + 1" and st="(cs2, ?ss4)"] b by simp
  then have 2: "extends_with mid_kind ss2 ss5"
    using extends_with_pre[where P=mid_kind and ss=ss2
        and new="[visit_node_step ?n cs2 d, recurse_step ?n ''right'' cs2]"] by simp
  have "extends_with mid_kind ss (ss5 @ [return_step ?n (butlast cs5)])"
    by (rule extends_with_post[OF extends_with_trans[OF 1 2]]) simp
  then show ?case using st a b by (simp add: Let_def)
qed

lemma postorder_appends:
  "extends_with mid_kind (snd st) (snd (postorder_traverse t d st))"
proof (induction t arbitrary: d st)
  case Null
  show ?case by (cases st) simp
next
  case (Node i v l r)
  obtain cs ss where st: "st = (cs, ss)" by (cases st)
  let ?n = "Node i v l r"
  let ?cs1 = "cs @ [(''postorder'', v)]"
  let ?ss1 = "ss @ [recurse_step ?n ''left'' ?cs1]"
  obtain cs2 ss2 where a: "postorder_traverse l (d + 1) (?cs1, ?ss1) = (cs2, ss2)" by (metis surj_pair)
  obtain cs3 ss3 where b: "postorder_traverse r (d + 1) (cs2, ss2 @ [recurse_step ?n ''right'' cs2]) = (cs3, ss3)"
    by (metis surj_pair)
  have "extends_with mid_kind ?ss1 ss2" using Node.IH(1)[where d="d + 1" and st="(?cs1, ?ss1)"] a by simp
  then have 1: "extends_with mid_kind ss ss2" by (rule extends_with_pre) simp
  have "extends_with mid_kind (ss2 @ [recurse_step ?n ''right'' cs2]) ss3"
    using Node.IH(2)[where d="d + 1" and st="(cs2, ss2 @ [recurse_step ?n ''right'' cs2])"] b by simp
  then have 2: "extends_with mid_kind ss2 ss3" by (rule extends_with_pre) simp
  have "extends_with mid_kind ss (ss3 @ [visit_node_step ?n cs3 d, return_step ?n (butlast cs3)])"
    by (rule extends_with_post[OF extends_with_trans[OF 1 2]]) simp
  then show ?case using st a b by (simp add: Let_def)
qed

lemma traversals_bracketed:
  "well_bracketed (preorderTraversal t)" "well_bracketed (inorderTraversal t)"
  "well_bracketed (postorderTraversal t)"
proof -
  have "extends_with mid_kind [new_step Init] (snd (preorder_traverse t 0 ([], [new_step Init])))"
    using preorder_appends[of "([], [new_step Init])" t 0] by simp
  then show "well_bracketed (preorderTraversal t)"
    unfolding preorderTraversal_def
    by (intro well_bracketedI[where i="new_step Init"]) (simp_all add: terminal_type_def)
  have "extends_with mid_kind [new_step Init] (snd (inorder_traverse t 0 ([], [new_step Init])))"
    using inorder_appends[of "([], [new_step Init])" t 0] by simp
  then show "well_bracketed (inorderTraversal t)"
    unfolding inorderTraversal_def
    by (intro well_bracketedI[where i="new_step Init"]) (simp_all add: terminal_type_def)
  have "extends_with mid_kind [new_step Init] (snd (postorder_traverse t 0 ([], [new_step Init])))"
    using postorder_appends[of "([], [new_step Init])" t 0] by simp
  then show "well_bracketed (postorderTraversal t)"
    unfolding postorderTraversal_def
    by (intro well_bracketedI[where i="new_step Init"]) (simp_all add: terminal_type_def)
qed

subsection \<open>Graph traversal\<close>

lemma bfs_discover_appends:
  "extends_with mid_kind (snd (snd st)) (snd (snd (bfs_discover walls cur nb st)))"
  by (cases st) (simp add: bfs_discover_def Let_def)

lemma bfs_loop_appends:
  "extends_with mid_kind (snd (snd st)) (snd (snd (bfs_loop rows cols walls st)))"
proof (induction rows cols walls st rule: bfs_loop.induct)
  case (1 rows cols walls queue vis ss)
  show ?case
  proof (cases queue)
    case Nil
    then show ?thesis by simp
  next
    case (Cons cur rest)
    let ?v = "(new_step Visit)\<lparr>current := Some cur, visited := Some vis\<rparr>"
    let ?st1 = "fold (bfs_discover walls cur) (getNeighbors (row cur) (col cur) rows cols) (rest, vis, ss @ [?v])"
    have "extends_with mid_kind (ss @ [?v]) (snd (snd ?st1))"
      using extends_with_fold[where pr="\<lambda>st. snd (snd st)" and f="bfs_discover walls cur" and P=mid_kind,
          OF bfs_discover_appends, of "(rest, vis, ss @ [?v])"] by simp
    then have "extends_with mid_kind ss (snd (snd ?st1))" by (rule extends_with_pre) simp
    from extends_with_trans[OF this "1.IH"[OF Cons]]
    show ?thesis using Cons by simp
  qed
qed

lemma bfs_bracketed: "well_bracketed (bfs rows cols start_p walls)"
proof -
  let ?i = "(new_step Init)\<lparr>current := Some start_p, visited := Some [start_p]\<rparr>"
  obtain q v ss where r: "bfs_loop rows cols walls ([start_p], [start_p], [?i]) = (q, v, ss)"
    by (metis prod_cases3)
  have "extends_with mid_kind [?i] ss"
    using bfs_loop_appends[of "([start_p], [start_p], [?i])" rows cols walls] r by simp
  then have "well_bracketed (ss @ [(new_step Complete)\<lparr>visited := Some v\<rparr>])"
    by (intro well_bracketedI[where i="?i"]) (simp_all add: terminal_type_def)
  then show ?thesis using r by (simp add: bfs_def set_add_def q_enqueue_def Let_def)
qed

lemma dfs_bracketed: "well_bracketed (dfs rows cols start_p walls)"
proof -
  let ?i = "(new_step Init)\<lparr>current := Some start_p, visited := Some []\<rparr>"
  obtain vis new where d: "dfs rows cols start_p walls = [?i] @ new @ [(new_step Complete)\<lparr>visited := Some vis\<rparr>]"
    and k: "list_all dfs_kind new"
    using dfs_shape by blast
  have "list_all mid_kind new" using k by (auto simp: list_all_iff dfs_kind_def)
  then have "extends_with mid_kind [?i] ([?i] @ new)" unfolding extends_with_def by blast
  then have "well_bracketed (([?i] @ new) @ [(new_step Complete)\<lparr>visited := Some vis\<rparr>])"
    by (intro well_bracketedI[where i="?i"]) (simp_all add: terminal_type_def)
  then show ?thesis using d by simp
qed

subsection \<open>Pathfinding: the walk back along \<open>previous\<close> ends\<close>

text \<open>
  A parent map descends along a rank (the distance of \<open>dijkstra\<close>, the \<open>gScore\<close> of
  \<open>aStar\<close>) when every position with a parent has a rank, and its parent a smaller,
  non-negative one. On such a map \<open>reconstruct_from\<close> returns.
\<close>

definition descends :: "(pos \<rightharpoonup> pos) \<Rightarrow> (pos \<rightharpoonup> int) \<Rightarrow> bool" where
  "descends parentMap rank =
     (\<forall>n p. parentMap n = Some p \<longrightarrow> (\<exists>rn rp. rank n = Some rn \<and> rank p = Some rp \<and> 0 \<le> rp \<and> rp < rn))"

lemma reconstruct_from_returns:
  assumes "descends parentMap rank"
  shows "\<exists>p. reconstruct_from parentMap start_p cur acc = Some p"
proof (cases "parentMap cur")
  case None
  then show ?thesis by (subst reconstruct_from.simps) simp
next
  case (Some nxt0)
  then obtain r0 where "rank cur = Some r0" using assms unfolding descends_def by blast
  then show ?thesis
  proof (induction "nat r0" arbitrary: cur r0 acc rule: less_induct)
    case less
    show ?case
    proof (cases "parentMap cur")
      case None
      then show ?thesis by (subst reconstruct_from.simps) simp
    next
      case (Some nxt)
      then obtain rn rp where r: "rank cur = Some rn" "rank nxt = Some rp" "0 \<le> rp" "rp < rn"
        using assms unfolding descends_def by blast
      show ?thesis
      proof (cases "row nxt = row start_p \<and> col nxt = col start_p")
        case True
        then show ?thesis using Some by (subst reconstruct_from.simps) simp
      next
        case False
        have "nat rp < nat r0" using r less.prems by simp
        from less.hyps[OF this r(2)] obtain p where
          "reconstruct_from parentMap start_p nxt (cur # acc) = Some p" by blast
        then show ?thesis using Some False by (subst reconstruct_from.simps) simp
      qed
    qed
  qed
qed

lemma reconstructPath_returns:
  "descends parentMap rank \<Longrightarrow> \<exists>p. reconstructPath parentMap start_p end_p = Some p"
  unfolding reconstructPath_def by (rule reconstruct_from_returns)

definition dijkstra_inv :: "dijkstra_state \<Rightarrow> bool" where
  "dijkstra_inv s =
     (descends (d_previous s) (d_distances s)
      \<and> (\<forall>v \<in> set (d_pq s). \<exists>d. d_distances s (element v) = Some d \<and> 0 \<le> d \<and> d \<le> priority v))"

lemma dijkstra_relax_inv:
  assumes inv: "dijkstra_inv s" and vis: "cur \<in> set (d_visited s)"
    and dc: "d_distances s cur = Some dc" "0 \<le> dc" "dc \<le> cd"
  shows "dijkstra_inv (dijkstra_relax walls cur cd nb s)
     \<and> d_visited (dijkstra_relax walls cur cd nb s) = d_visited s
     \<and> d_distances (dijkstra_relax walls cur cd nb s) cur = Some dc"
proof (cases "nb \<in> walls \<or> set_has nb (d_visited s)
    \<or> \<not> (case d_distances s nb of None \<Rightarrow> True | Some oldDist \<Rightarrow> cd + 1 < oldDist)")
  case True
  then have "dijkstra_relax walls cur cd nb s = s" by (auto simp: dijkstra_relax_def Let_def)
  then show ?thesis using inv dc by simp
next
  case False
  then have nb: "nb \<noteq> cur" using vis by (auto simp: set_has_def)
  have better: "\<And>old. d_distances s nb = Some old \<Longrightarrow> cd + 1 < old" using False by auto
  let ?s' = "dijkstra_relax walls cur cd nb s"
  have s': "d_distances ?s' = (d_distances s)(nb \<mapsto> cd + 1)"
    "d_previous ?s' = (d_previous s)(nb \<mapsto> cur)"
    "d_pq ?s' = enqueue nb (cd + 1) (d_pq s)" "d_visited ?s' = d_visited s"
    using False by (auto simp: dijkstra_relax_def Let_def)
  have desc: "descends (d_previous s) (d_distances s)" using inv by (simp add: dijkstra_inv_def)
  have "descends ((d_previous s)(nb \<mapsto> cur)) ((d_distances s)(nb \<mapsto> cd + 1))"
    unfolding descends_def
  proof (intro allI impI)
    fix n p assume h: "((d_previous s)(nb \<mapsto> cur)) n = Some p"
    show "\<exists>rn rp. ((d_distances s)(nb \<mapsto> cd + 1)) n = Some rn
        \<and> ((d_distances s)(nb \<mapsto> cd + 1)) p = Some rp \<and> 0 \<le> rp \<and> rp < rn"
    proof (cases "n = nb")
      case True
      then have "p = cur" using h by simp
      then show ?thesis using True nb dc by simp
    next
      case False
      then have "d_previous s n = Some p" using h by simp
      then obtain rn rp where r: "d_distances s n = Some rn" "d_distances s p = Some rp" "0 \<le> rp" "rp < rn"
        using desc unfolding descends_def by blast
      show ?thesis
      proof (cases "p = nb")
        case True
        then have "cd + 1 < rp" using better r by simp
        then show ?thesis using True False r dc by simp
      next
        case pn: False
        then show ?thesis using False r by simp
      qed
    qed
  qed
  moreover have "\<forall>v \<in> set (enqueue nb (cd + 1) (d_pq s)).
      \<exists>d. ((d_distances s)(nb \<mapsto> cd + 1)) (element v) = Some d \<and> 0 \<le> d \<and> d \<le> priority v"
  proof
    fix v assume "v \<in> set (enqueue nb (cd + 1) (d_pq s))"
    then consider "v = (nb, cd + 1)" | "v \<in> set (d_pq s)" by auto
    then show "\<exists>d. ((d_distances s)(nb \<mapsto> cd + 1)) (element v) = Some d \<and> 0 \<le> d \<and> d \<le> priority v"
    proof cases
      case 1
      then show ?thesis using dc by (simp add: element_def priority_def)
    next
      case 2
      then obtain d where d: "d_distances s (element v) = Some d" "0 \<le> d" "d \<le> priority v"
        using inv by (auto simp: dijkstra_inv_def)
      show ?thesis
      proof (cases "element v = nb")
        case True
        then have "cd + 1 < d" using better d by simp
        then show ?thesis using True d dc by simp
      next
        case False
        then show ?thesis using d by simp
      qed
    qed
  qed
  ultimately show ?thesis using s' nb dc by (simp add: dijkstra_inv_def)
qed

lemma dijkstra_relax_fold_inv:
  "dijkstra_inv s \<Longrightarrow> cur \<in> set (d_visited s) \<Longrightarrow> d_distances s cur = Some dc \<Longrightarrow> 0 \<le> dc
   \<Longrightarrow> dc \<le> cd \<Longrightarrow> dijkstra_inv (fold (dijkstra_relax walls cur cd) nbs s)"
proof (induction nbs arbitrary: s)
  case Nil
  then show ?case by simp
next
  case (Cons nb nbs)
  from dijkstra_relax_inv[OF Cons.prems, of walls nb]
  show ?case using Cons.IH[of "dijkstra_relax walls cur cd nb s"] Cons.prems by simp
qed

lemma dijkstra_relax_appends:
  "extends_with mid_kind (d_steps s) (d_steps (dijkstra_relax walls cur cd nb s))"
  by (simp add: dijkstra_relax_def Let_def)

definition path_result :: "step list \<Rightarrow> step list \<Rightarrow> bool" where
  "path_result ss0 res =
     (\<exists>ss t. res = ss @ [t] \<and> extends_with mid_kind ss0 ss \<and> (type t = NoPath \<or> type t = PathFound))"

lemma dijkstra_loop_returns:
  "dijkstra_inv s \<Longrightarrow>
     \<exists>res. dijkstra_loop rows cols start_p end_p walls s = Some res \<and> path_result (d_steps s) res"
proof (induction rows cols start_p end_p walls s rule: dijkstra_loop.induct)
  case (1 rows cols start_p end_p walls s)
  show ?case
  proof (cases "d_pq s")
    case Nil
    then show ?thesis
      by (subst dijkstra_loop.simps) (simp add: path_result_def)
  next
    case (Cons v rest)
    show ?thesis
    proof (cases "set_has (element v) (d_visited s)")
      case True
      have "dijkstra_inv (s\<lparr>d_pq := rest\<rparr>)" using "1.prems" Cons by (simp add: dijkstra_inv_def)
      from "1.IH"(1)[OF Cons True this]
      show ?thesis using Cons True by (subst dijkstra_loop.simps) simp
    next
      case False
      define cur where "cur = element v"
      define cd where "cd = priority v"
      define vis1 where "vis1 = set_add cur (d_visited s)"
      define ss1 where "ss1 = d_steps s @ [(new_step Visit)\<lparr>current := Some cur,
                           distance := Some cd, visited := Some vis1\<rparr>]"
      have e1: "extends_with mid_kind (d_steps s) ss1" by (simp add: ss1_def)
      show ?thesis
      proof (cases "row cur = row end_p \<and> col cur = col end_p")
        case True
        obtain p where p: "reconstructPath (d_previous s) start_p end_p = Some p"
          using reconstructPath_returns[of "d_previous s" "d_distances s" start_p end_p] "1.prems"
          unfolding dijkstra_inv_def by blast
        show ?thesis
          using Cons False True p e1
          by (subst dijkstra_loop.simps)
            (auto simp: Let_def path_result_def cur_def cd_def vis1_def ss1_def)
      next
        case ne: False
        let ?s1 = "s\<lparr>d_pq := rest, d_visited := vis1, d_steps := ss1\<rparr>"
        let ?s2 = "fold (dijkstra_relax walls cur cd) (getNeighbors (row cur) (col cur) rows cols) ?s1"
        obtain dc where dc: "d_distances s cur = Some dc" "0 \<le> dc" "dc \<le> cd"
          using "1.prems" Cons by (auto simp: dijkstra_inv_def cur_def cd_def)
        have i1: "dijkstra_inv ?s1" using "1.prems" Cons by (simp add: dijkstra_inv_def)
        have "cur \<in> set (d_visited ?s1)" by (simp add: vis1_def set_add_def)
        from dijkstra_relax_fold_inv[OF i1 this _ dc(2,3), of walls "getNeighbors (row cur) (col cur) rows cols"] dc(1)
        have i2: "dijkstra_inv ?s2" by simp
        have e2: "extends_with mid_kind ss1 (d_steps ?s2)"
          using extends_with_fold[where pr=d_steps and f="dijkstra_relax walls cur cd" and P=mid_kind,
              OF dijkstra_relax_appends, of ?s1] by simp
        obtain res where res: "dijkstra_loop rows cols start_p end_p walls ?s2 = Some res"
            "path_result (d_steps ?s2) res"
          using "1.IH"(2)[OF Cons False cur_def cd_def vis1_def ss1_def ne i2] by blast
        have "path_result (d_steps s) res"
          using res(2) extends_with_trans[OF e1 e2] unfolding path_result_def
          by (blast intro: extends_with_trans)
        moreover have "dijkstra_loop rows cols start_p end_p walls s
            = dijkstra_loop rows cols start_p end_p walls ?s2"
          using Cons False ne
          by (subst dijkstra_loop.simps) (auto simp: Let_def cur_def cd_def vis1_def ss1_def)
        ultimately show ?thesis using res(1) by simp
      qed
    qed
  qed
qed

lemma dijkstra_returns_bracketed:
  "\<exists>res. dijkstra rows cols start_p end_p walls = Some res \<and> well_bracketed res
      \<and> (type (last res) = NoPath \<or> type (last res) = PathFound)"
proof -
  let ?i = "(new_step Init)\<lparr>start := Some start_p, end_pos := Some end_p\<rparr>"
  let ?s0 = "\<lparr>d_distances = [start_p \<mapsto> 0], d_previous = Map.empty, d_visited = [],
        d_pq = enqueue start_p 0 [], d_steps = [?i]\<rparr>"
  have "dijkstra_inv ?s0"
    by (simp add: dijkstra_inv_def descends_def element_def priority_def)
  from dijkstra_loop_returns[OF this, of rows cols start_p end_p walls]
  obtain ss t where r: "dijkstra rows cols start_p end_p walls = Some (ss @ [t])"
    "extends_with mid_kind [?i] ss" "type t = NoPath \<or> type t = PathFound"
    by (auto simp: dijkstra_def path_result_def)
  have "well_bracketed (ss @ [t])"
    using r(2,3) by (intro well_bracketedI[where i="?i"]) (auto simp: terminal_type_def)
  then show ?thesis using r by auto
qed

definition astar_inv :: "astar_state \<Rightarrow> bool" where
  "astar_inv s =
     (descends (a_previous s) (a_gScore s) \<and> (\<forall>n g. a_gScore s n = Some g \<longrightarrow> 0 \<le> g))"

lemma astar_relax_inv:
  assumes inv: "astar_inv s" and vis: "cur \<in> set (a_visited s)" and g: "a_gScore s cur = g"
  shows "astar_inv (astar_relax walls end_p cur g nb s)
     \<and> a_visited (astar_relax walls end_p cur g nb s) = a_visited s
     \<and> a_gScore (astar_relax walls end_p cur g nb s) cur = g"
proof (cases "nb \<in> walls \<or> set_has nb (a_visited s) \<or> g = None
    \<or> \<not> (case a_gScore s nb of None \<Rightarrow> True | Some oldG \<Rightarrow> the g + 1 < oldG)")
  case True
  then have "astar_relax walls end_p cur g nb s = s"
    by (auto simp: astar_relax_def Let_def split: option.splits)
  then show ?thesis using inv g by simp
next
  case False
  then obtain gv where gv: "g = Some gv" by auto
  have nb: "nb \<noteq> cur" using False vis by (auto simp: set_has_def)
  have better: "\<And>old. a_gScore s nb = Some old \<Longrightarrow> gv + 1 < old" using False gv by auto
  have pos: "\<And>n x. a_gScore s n = Some x \<Longrightarrow> 0 \<le> x" using inv unfolding astar_inv_def by blast
  have gv0: "0 \<le> gv" using pos g gv by simp
  let ?s' = "astar_relax walls end_p cur g nb s"
  have c: "case a_gScore s nb of None \<Rightarrow> True | Some oldG \<Rightarrow> gv + 1 < oldG"
    using False gv by (auto split: option.splits)
  have c': "nb \<notin> walls" "\<not> set_has nb (a_visited s)" using False by auto
  have s': "a_gScore ?s' = (a_gScore s)(nb \<mapsto> gv + 1)"
    "a_previous ?s' = (a_previous s)(nb \<mapsto> cur)" "a_visited ?s' = a_visited s"
    using c c' gv by (simp_all add: astar_relax_def Let_def)
  have desc: "descends (a_previous s) (a_gScore s)" using inv by (simp add: astar_inv_def)
  have "descends ((a_previous s)(nb \<mapsto> cur)) ((a_gScore s)(nb \<mapsto> gv + 1))"
    unfolding descends_def
  proof (intro allI impI)
    fix n p assume h: "((a_previous s)(nb \<mapsto> cur)) n = Some p"
    show "\<exists>rn rp. ((a_gScore s)(nb \<mapsto> gv + 1)) n = Some rn
        \<and> ((a_gScore s)(nb \<mapsto> gv + 1)) p = Some rp \<and> 0 \<le> rp \<and> rp < rn"
    proof (cases "n = nb")
      case True
      then have "p = cur" using h by simp
      then show ?thesis using True nb g gv gv0 by simp
    next
      case False
      then have "a_previous s n = Some p" using h by simp
      then obtain rn rp where r: "a_gScore s n = Some rn" "a_gScore s p = Some rp" "0 \<le> rp" "rp < rn"
        using desc unfolding descends_def by blast
      show ?thesis
      proof (cases "p = nb")
        case True
        then have "gv + 1 < rp" using better r by simp
        then show ?thesis using True False r gv0 by simp
      next
        case pn: False
        then show ?thesis using False r by simp
      qed
    qed
  qed
  moreover have "\<forall>n x. ((a_gScore s)(nb \<mapsto> gv + 1)) n = Some x \<longrightarrow> 0 \<le> x"
    using pos gv0 by auto
  ultimately show ?thesis using s' nb g by (simp add: astar_inv_def)
qed

lemma astar_relax_fold_inv:
  "astar_inv s \<Longrightarrow> cur \<in> set (a_visited s) \<Longrightarrow> a_gScore s cur = g
   \<Longrightarrow> astar_inv (fold (astar_relax walls end_p cur g) nbs s)"
proof (induction nbs arbitrary: s)
  case Nil
  then show ?case by simp
next
  case (Cons nb nbs)
  from astar_relax_inv[OF Cons.prems, of walls end_p nb]
  show ?case using Cons.IH[of "astar_relax walls end_p cur g nb s"] Cons.prems by simp
qed

lemma astar_relax_appends:
  "extends_with mid_kind (a_steps s) (a_steps (astar_relax walls end_p cur g nb s))"
  by (simp add: astar_relax_def Let_def split: option.splits)

lemma aStar_loop_returns:
  "astar_inv s \<Longrightarrow>
     \<exists>res. aStar_loop rows cols start_p end_p walls s = Some res \<and> path_result (a_steps s) res"
proof (induction rows cols start_p end_p walls s rule: aStar_loop.induct)
  case (1 rows cols start_p end_p walls s)
  show ?case
  proof (cases "a_openSet s")
    case Nil
    then show ?thesis
      by (subst aStar_loop.simps) (simp add: path_result_def)
  next
    case (Cons v rest)
    show ?thesis
    proof (cases "set_has (element v) (a_visited s)")
      case True
      have "astar_inv (s\<lparr>a_openSet := rest\<rparr>)" using "1.prems" by (simp add: astar_inv_def)
      from "1.IH"(1)[OF Cons True this]
      show ?thesis using Cons True by (subst aStar_loop.simps) simp
    next
      case False
      define cur where "cur = element v"
      define vis1 where "vis1 = set_add cur (a_visited s)"
      define g where "g = a_gScore s cur"
      define h where "h = manhattanDistance cur end_p"
      define f where "f = map_option (\<lambda>gv. gv + h) g"
      define ss1 where "ss1 = a_steps s @ [(new_step Visit)\<lparr>current := Some cur, gScore := g,
                           hScore := Some h, fScore := f, visited := Some vis1\<rparr>]"
      have e1: "extends_with mid_kind (a_steps s) ss1" by (simp add: ss1_def)
      show ?thesis
      proof (cases "row cur = row end_p \<and> col cur = col end_p")
        case True
        obtain p where p: "reconstructPath (a_previous s) start_p end_p = Some p"
          using reconstructPath_returns[of "a_previous s" "a_gScore s" start_p end_p] "1.prems"
          unfolding astar_inv_def by blast
        show ?thesis
          using Cons False True p e1
          by (subst aStar_loop.simps)
            (auto simp: Let_def path_result_def cur_def vis1_def g_def h_def f_def ss1_def)
      next
        case ne: False
        let ?s1 = "s\<lparr>a_openSet := rest, a_visited := vis1, a_steps := ss1\<rparr>"
        let ?s2 = "fold (astar_relax walls end_p cur g) (getNeighbors (row cur) (col cur) rows cols) ?s1"
        have i1: "astar_inv ?s1" using "1.prems" by (simp add: astar_inv_def)
        have "cur \<in> set (a_visited ?s1)" by (simp add: vis1_def set_add_def)
        from astar_relax_fold_inv[OF i1 this, of g walls end_p "getNeighbors (row cur) (col cur) rows cols"]
        have i2: "astar_inv ?s2" by (simp add: g_def)
        have e2: "extends_with mid_kind ss1 (a_steps ?s2)"
          using extends_with_fold[where pr=a_steps and f="astar_relax walls end_p cur g" and P=mid_kind,
              OF astar_relax_appends, of ?s1] by simp
        obtain res where res: "aStar_loop rows cols start_p end_p walls ?s2 = Some res"
            "path_result (a_steps ?s2) res"
          using "1.IH"(2)[OF Cons False cur_def vis1_def g_def h_def f_def ss1_def ne i2] by blast
        have "path_result (a_steps s) res"
          using res(2) extends_with_trans[OF e1 e2] unfolding path_result_def
          by (blast intro: extends_with_trans)
        moreover have "aStar_loop rows cols start_p end_p walls s
            = aStar_loop rows cols start_p end_p walls ?s2"
          using Cons False ne
          by (subst aStar_loop.simps) (auto simp: Let_def cur_def vis1_def g_def h_def f_def ss1_def)
        ultimately show ?thesis using res(1) by simp
      qed
    qed
  qed
qed

lemma aStar_returns_bracketed:
  "\<exists>res. aStar rows cols start_p end_p walls = Some res \<and> well_bracketed res
      \<and> (type (last res) = NoPath \<or> type (last res) = PathFound)"
proof -
  let ?i = "(new_step Init)\<lparr>start := Some start_p, end_pos := Some end_p,
                     heuristic := Some (manhattanDistance start_p end_p)\<rparr>"
  let ?s0 = "\<lparr>a_gScore = [start_p \<mapsto> 0],
        a_fScore = [start_p \<mapsto> manhattanDistance start_p end_p],
        a_previous = Map.empty, a_visited = [],
        a_openSet = enqueue start_p (manhattanDistance start_p end_p) [],
        a_steps = [?i]\<rparr>"
  have "astar_inv ?s0"
    by (simp add: astar_inv_def descends_def)
  from aStar_loop_returns[OF this, of rows cols start_p end_p walls]
  obtain ss t where r: "aStar rows cols start_p end_p walls = Some (ss @ [t])"
    "extends_with mid_kind [?i] ss" "type t = NoPath \<or> type t = PathFound"
    by (auto simp: aStar_def path_result_def)
  have "well_bracketed (ss @ [t])"
    using r(2,3) by (intro well_bracketedI[where i="?i"]) (auto simp: terminal_type_def)
  then show ?thesis using r by auto
qed

text \<open>
  Claim C3, as the code has it. Every generator returns a sequence whose first step is its
  only \<open>init\<close> step and whose last step is its only terminal step, where the terminal types
  are \<open>complete\<close>, \<open>no-path\<close> and \<open>path-found\<close>: \<open>dijkstra\<close> and \<open>aStar\<close> return
  right after \<open>path-found\<close> when they reach the goal. Both always return.
\<close>

theorem generators_well_bracketed:
  "well_bracketed (bubbleSort arr) \<and> well_bracketed (insertionSort arr)
   \<and> well_bracketed (mergeSort arr)
   \<and> well_bracketed (bfs rows cols start_p walls) \<and> well_bracketed (dfs rows cols start_p walls)
   \<and> (\<exists>res. dijkstra rows cols start_p end_p walls = Some res \<and> well_bracketed res)
   \<and> (\<exists>res. aStar rows cols start_p end_p walls = Some res \<and> well_bracketed res)
   \<and> well_bracketed (preorderTraversal t) \<and> well_bracketed (inorderTraversal t)
   \<and> well_bracketed (postorderTraversal t)"
  using bubbleSort_bracketed insertionSort_bracketed mergeSort_bracketed bfs_bracketed
    dfs_bracketed traversals_bracketed
    dijkstra_returns_bracketed[of rows cols start_p end_p walls]
    aStar_returns_bracketed[of rows cols start_p end_p walls]
  by blast

theorem generators_well_bracketed_witness:
  "well_bracketed (bubbleSort [2, 1]) \<and> well_bracketed (bfs 2 2 (0, 0) {})
   \<and> (\<exists>res. dijkstra 2 2 (0, 0) (1, 1) {} = Some res \<and> well_bracketed res)
   \<and> well_bracketed (inorderTraversal (Node 1 5 Null Null))"
  using generators_well_bracketed [of "[2, 1]" 2 2 "(0, 0)" "{}" "(1, 1)" "Node 1 5 Null Null"]
  by simp

text \<open>
  With \<open>complete\<close> and \<open>no-path\<close> as the only terminal types the claim fails: on a grid of
  one cell that is both start and goal, \<open>dijkstra\<close> ends with \<open>path-found\<close>.
\<close>

theorem dijkstra_ends_path_found_counterexample:
  "map_option (map type) (dijkstra 1 1 (0, 0) (0, 0) {}) = Some [Init, Visit, PathFound]"
  by (simp add: dijkstra_def dijkstra_loop.simps enqueue_def pq_sort_def element_def priority_def
      set_has_def set_add_def Let_def reconstructPath_def reconstruct_from.simps)

subsection \<open>Configurations that a validation would reject\<close>




lemma same_cell: "(row p = row q \<and> col p = col q) = (p = q)"
  by (auto simp: row_def col_def prod_eq_iff)



subsection \<open>Trees with shared nodes and with cycles\<close>







































subsection \<open>No configuration is rejected\<close>







section \<open>Pathfinding without a path\<close>

text \<open>
  The positions a walk can reach from the start: a step goes from a position to one of its
  \<open>getNeighbors\<close> that is not a wall. A path from start to goal exists when the goal is
  among them.
\<close>

inductive_set reachable :: "int \<Rightarrow> int \<Rightarrow> pos set \<Rightarrow> pos \<Rightarrow> pos set"
  for rows :: int and cols :: int and walls :: "pos set" and start_p :: pos where
  reach_start: "start_p \<in> reachable rows cols walls start_p"
| reach_step: "n \<in> reachable rows cols walls start_p
    \<Longrightarrow> nb \<in> set (getNeighbors (row n) (col n) rows cols) \<Longrightarrow> nb \<notin> walls
    \<Longrightarrow> nb \<in> reachable rows cols walls start_p"

definition no_path_result :: "step list \<Rightarrow> step list \<Rightarrow> bool" where
  "no_path_result ss0 res =
     (\<exists>ss t. res = ss @ [t] \<and> extends_with mid_kind ss0 ss \<and> type t = NoPath)"

lemma no_path_result_last:
  assumes "no_path_result [i] res" "type i = Init"
  shows "type (last res) = NoPath \<and> list_all (\<lambda>s. type s \<noteq> PathFound) res"
proof -
  obtain new t where r: "res = ([i] @ new) @ [t]" "list_all mid_kind new" "type t = NoPath"
    using assms(1) unfolding no_path_result_def extends_with_def by blast
  have "list_all (\<lambda>s. type s \<noteq> PathFound) new"
    using r(2) by (auto simp: list_all_iff mid_kind_def terminal_type_def)
  then show ?thesis using r assms(2) by simp
qed

lemma dijkstra_relax_fold_reach:
  assumes "\<forall>v \<in> set (d_pq s). element v \<in> reachable rows cols walls start_p"
    and "cur \<in> reachable rows cols walls start_p"
    and "set nbs \<subseteq> set (getNeighbors (row cur) (col cur) rows cols)"
  shows "\<forall>v \<in> set (d_pq (fold (dijkstra_relax walls cur cd) nbs s)).
           element v \<in> reachable rows cols walls start_p"
  using assms
proof (induction nbs arbitrary: s)
  case Nil
  then show ?case by simp
next
  case (Cons nb nbs)
  have "\<forall>v \<in> set (d_pq (dijkstra_relax walls cur cd nb s)). element v \<in> reachable rows cols walls start_p"
    using Cons.prems reach_step[of cur rows cols walls start_p nb]
    by (auto simp: dijkstra_relax_def Let_def element_def)
  from Cons.IH[OF this] Cons.prems show ?case by simp
qed

lemma dijkstra_loop_no_path:
  "\<forall>v \<in> set (d_pq s). element v \<in> reachable rows cols walls start_p
   \<Longrightarrow> end_p \<notin> reachable rows cols walls start_p
   \<Longrightarrow> \<exists>res. dijkstra_loop rows cols start_p end_p walls s = Some res
         \<and> no_path_result (d_steps s) res"
proof (induction rows cols start_p end_p walls s rule: dijkstra_loop.induct)
  case (1 rows cols start_p end_p walls s)
  show ?case
  proof (cases "d_pq s")
    case Nil
    then show ?thesis
      by (subst dijkstra_loop.simps) (simp add: no_path_result_def)
  next
    case (Cons v rest)
    show ?thesis
    proof (cases "set_has (element v) (d_visited s)")
      case True
      have "\<forall>v \<in> set (d_pq (s\<lparr>d_pq := rest\<rparr>)). element v \<in> reachable rows cols walls start_p"
        using "1.prems"(1) Cons by simp
      from "1.IH"(1)[OF Cons True this "1.prems"(2)]
      show ?thesis using Cons True by (subst dijkstra_loop.simps) simp
    next
      case False
      define cur where "cur = element v"
      define cd where "cd = priority v"
      define vis1 where "vis1 = set_add cur (d_visited s)"
      define ss1 where "ss1 = d_steps s @ [(new_step Visit)\<lparr>current := Some cur,
                           distance := Some cd, visited := Some vis1\<rparr>]"
      have e1: "extends_with mid_kind (d_steps s) ss1" by (simp add: ss1_def)
      have cr: "cur \<in> reachable rows cols walls start_p"
        using "1.prems"(1) Cons by (simp add: cur_def)
      then have ne: "\<not> (row cur = row end_p \<and> col cur = col end_p)"
        using "1.prems"(2) by (auto simp: same_cell)
      let ?s1 = "s\<lparr>d_pq := rest, d_visited := vis1, d_steps := ss1\<rparr>"
      let ?s2 = "fold (dijkstra_relax walls cur cd) (getNeighbors (row cur) (col cur) rows cols) ?s1"
      have "\<forall>v \<in> set (d_pq ?s1). element v \<in> reachable rows cols walls start_p"
        using "1.prems"(1) Cons by simp
      from dijkstra_relax_fold_reach[OF this cr subset_refl]
      have i2: "\<forall>v \<in> set (d_pq ?s2). element v \<in> reachable rows cols walls start_p" .
      have e2: "extends_with mid_kind ss1 (d_steps ?s2)"
        using extends_with_fold[where pr=d_steps and f="dijkstra_relax walls cur cd" and P=mid_kind,
            OF dijkstra_relax_appends, of ?s1] by simp
      obtain res where res: "dijkstra_loop rows cols start_p end_p walls ?s2 = Some res"
          "no_path_result (d_steps ?s2) res"
        using "1.IH"(2)[OF Cons False cur_def cd_def vis1_def ss1_def ne i2 "1.prems"(2)] by blast
      have "no_path_result (d_steps s) res"
        using res(2) extends_with_trans[OF e1 e2] unfolding no_path_result_def
        by (blast intro: extends_with_trans)
      moreover have "dijkstra_loop rows cols start_p end_p walls s
          = dijkstra_loop rows cols start_p end_p walls ?s2"
        using Cons False ne
        by (subst dijkstra_loop.simps) (auto simp: Let_def cur_def cd_def vis1_def ss1_def)
      ultimately show ?thesis using res(1) by simp
    qed
  qed
qed

lemma astar_relax_fold_reach:
  assumes "\<forall>v \<in> set (a_openSet s). element v \<in> reachable rows cols walls start_p"
    and "cur \<in> reachable rows cols walls start_p"
    and "set nbs \<subseteq> set (getNeighbors (row cur) (col cur) rows cols)"
  shows "\<forall>v \<in> set (a_openSet (fold (astar_relax walls end_p cur g) nbs s)).
           element v \<in> reachable rows cols walls start_p"
  using assms
proof (induction nbs arbitrary: s)
  case Nil
  then show ?case by simp
next
  case (Cons nb nbs)
  have "\<forall>v \<in> set (a_openSet (astar_relax walls end_p cur g nb s)). element v \<in> reachable rows cols walls start_p"
    using Cons.prems reach_step[of cur rows cols walls start_p nb]
    by (auto simp: astar_relax_def Let_def element_def split: option.splits)
  from Cons.IH[OF this] Cons.prems show ?case by simp
qed

lemma aStar_loop_no_path:
  "\<forall>v \<in> set (a_openSet s). element v \<in> reachable rows cols walls start_p
   \<Longrightarrow> end_p \<notin> reachable rows cols walls start_p
   \<Longrightarrow> \<exists>res. aStar_loop rows cols start_p end_p walls s = Some res
         \<and> no_path_result (a_steps s) res"
proof (induction rows cols start_p end_p walls s rule: aStar_loop.induct)
  case (1 rows cols start_p end_p walls s)
  show ?case
  proof (cases "a_openSet s")
    case Nil
    then show ?thesis
      by (subst aStar_loop.simps) (simp add: no_path_result_def)
  next
    case (Cons v rest)
    show ?thesis
    proof (cases "set_has (element v) (a_visited s)")
      case True
      have "\<forall>v \<in> set (a_openSet (s\<lparr>a_openSet := rest\<rparr>)). element v \<in> reachable rows cols walls start_p"
        using "1.prems"(1) Cons by simp
      from "1.IH"(1)[OF Cons True this "1.prems"(2)]
      show ?thesis using Cons True by (subst aStar_loop.simps) simp
    next
      case False
      define cur where "cur = element v"
      define vis1 where "vis1 = set_add cur (a_visited s)"
      define g where "g = a_gScore s cur"
      define h where "h = manhattanDistance cur end_p"
      define f where "f = map_option (\<lambda>gv. gv + h) g"
      define ss1 where "ss1 = a_steps s @ [(new_step Visit)\<lparr>current := Some cur, gScore := g,
                           hScore := Some h, fScore := f, visited := Some vis1\<rparr>]"
      have e1: "extends_with mid_kind (a_steps s) ss1" by (simp add: ss1_def)
      have cr: "cur \<in> reachable rows cols walls start_p"
        using "1.prems"(1) Cons by (simp add: cur_def)
      then have ne: "\<not> (row cur = row end_p \<and> col cur = col end_p)"
        using "1.prems"(2) by (auto simp: same_cell)
      let ?s1 = "s\<lparr>a_openSet := rest, a_visited := vis1, a_steps := ss1\<rparr>"
      let ?s2 = "fold (astar_relax walls end_p cur g) (getNeighbors (row cur) (col cur) rows cols) ?s1"
      have "\<forall>v \<in> set (a_openSet ?s1). element v \<in> reachable rows cols walls start_p"
        using "1.prems"(1) Cons by simp
      from astar_relax_fold_reach[OF this cr subset_refl]
      have i2: "\<forall>v \<in> set (a_openSet ?s2). element v \<in> reachable rows cols walls start_p" .
      have e2: "extends_with mid_kind ss1 (a_steps ?s2)"
        using extends_with_fold[where pr=a_steps and f="astar_relax walls end_p cur g" and P=mid_kind,
            OF astar_relax_appends, of ?s1] by simp
      obtain res where res: "aStar_loop rows cols start_p end_p walls ?s2 = Some res"
          "no_path_result (a_steps ?s2) res"
        using "1.IH"(2)[OF Cons False cur_def vis1_def g_def h_def f_def ss1_def ne i2 "1.prems"(2)] by blast
      have "no_path_result (a_steps s) res"
        using res(2) extends_with_trans[OF e1 e2] unfolding no_path_result_def
        by (blast intro: extends_with_trans)
      moreover have "aStar_loop rows cols start_p end_p walls s
          = aStar_loop rows cols start_p end_p walls ?s2"
        using Cons False ne
        by (subst aStar_loop.simps) (auto simp: Let_def cur_def vis1_def g_def h_def f_def ss1_def)
      ultimately show ?thesis using res(1) by simp
    qed
  qed
qed

text \<open>
  Claim C4. When the goal cannot be reached from the start, \<open>dijkstra\<close> and \<open>aStar\<close> both
  return a sequence that ends with a \<open>no-path\<close> step and holds no \<open>path-found\<close> step.
\<close>

theorem no_path_when_unreachable:
  assumes "end_p \<notin> reachable rows cols walls start_p"
  shows "(\<exists>res. dijkstra rows cols start_p end_p walls = Some res
            \<and> type (last res) = NoPath \<and> list_all (\<lambda>s. type s \<noteq> PathFound) res)
       \<and> (\<exists>res. aStar rows cols start_p end_p walls = Some res
            \<and> type (last res) = NoPath \<and> list_all (\<lambda>s. type s \<noteq> PathFound) res)"
proof
  let ?i = "(new_step Init)\<lparr>start := Some start_p, end_pos := Some end_p\<rparr>"
  let ?s0 = "\<lparr>d_distances = [start_p \<mapsto> 0], d_previous = Map.empty, d_visited = [],
        d_pq = enqueue start_p 0 [], d_steps = [?i]\<rparr>"
  have "\<forall>v \<in> set (d_pq ?s0). element v \<in> reachable rows cols walls start_p"
    by (simp add: element_def reach_start)
  from dijkstra_loop_no_path[OF this assms]
  obtain res where "dijkstra rows cols start_p end_p walls = Some res" "no_path_result [?i] res"
    by (auto simp: dijkstra_def)
  then show "\<exists>res. dijkstra rows cols start_p end_p walls = Some res
            \<and> type (last res) = NoPath \<and> list_all (\<lambda>s. type s \<noteq> PathFound) res"
    using no_path_result_last[of ?i res] by simp
next
  let ?i = "(new_step Init)\<lparr>start := Some start_p, end_pos := Some end_p,
                     heuristic := Some (manhattanDistance start_p end_p)\<rparr>"
  let ?s0 = "\<lparr>a_gScore = [start_p \<mapsto> 0],
        a_fScore = [start_p \<mapsto> manhattanDistance start_p end_p],
        a_previous = Map.empty, a_visited = [],
        a_openSet = enqueue start_p (manhattanDistance start_p end_p) [],
        a_steps = [?i]\<rparr>"
  have "\<forall>v \<in> set (a_openSet ?s0). element v \<in> reachable rows cols walls start_p"
    by (simp add: element_def reach_start)
  from aStar_loop_no_path[OF this assms]
  obtain res where "aStar rows cols start_p end_p walls = Some res" "no_path_result [?i] res"
    by (auto simp: aStar_def)
  then show "\<exists>res. aStar rows cols start_p end_p walls = Some res
            \<and> type (last res) = NoPath \<and> list_all (\<lambda>s. type s \<noteq> PathFound) res"
    using no_path_result_last[of ?i res] by simp
qed

lemma walled_off_reachable:
  "x \<in> reachable 1 3 {(0, 1)} (0, 0) \<Longrightarrow> x = (0, 0)"
  by (induction rule: reachable.induct)
    (auto simp: getNeighbors_def directions_def row_def col_def)

theorem no_path_when_unreachable_witness:
  "(0, 2) \<notin> reachable 1 3 {(0, 1)} (0, 0)
   \<and> (\<exists>res. dijkstra 1 3 (0, 0) (0, 2) {(0, 1)} = Some res
            \<and> type (last res) = NoPath \<and> list_all (\<lambda>s. type s \<noteq> PathFound) res)
   \<and> (\<exists>res. aStar 1 3 (0, 0) (0, 2) {(0, 1)} = Some res
            \<and> type (last res) = NoPath \<and> list_all (\<lambda>s. type s \<noteq> PathFound) res)"
proof -
  have u: "(0, 2) \<notin> reachable 1 3 {(0, 1)} (0, 0)"
    using walled_off_reachable[of "(0, 2)"] by auto
  from no_path_when_unreachable[OF u] u show ?thesis by blast
qed

section \<open>Shortest walks and the search invariant\<close>

text \<open>
  \<open>walk E s0 n k\<close>: a walk of \<open>k\<close> edges of \<open>E\<close> leads from \<open>s0\<close> to \<open>n\<close>;
  \<open>is_dist E s0 n d\<close>: \<open>d\<close> is the least such number.
\<close>

inductive walk :: "('n \<Rightarrow> 'n \<Rightarrow> bool) \<Rightarrow> 'n \<Rightarrow> 'n \<Rightarrow> nat \<Rightarrow> bool"
  for E :: "'n \<Rightarrow> 'n \<Rightarrow> bool" and s0 :: 'n where
  walk_start: "walk E s0 s0 0"
| walk_step: "walk E s0 n k \<Longrightarrow> E n nb \<Longrightarrow> walk E s0 nb (Suc k)"

definition is_dist :: "('n \<Rightarrow> 'n \<Rightarrow> bool) \<Rightarrow> 'n \<Rightarrow> 'n \<Rightarrow> nat \<Rightarrow> bool" where
  "is_dist E s0 n d = (walk E s0 n d \<and> (\<forall>k. walk E s0 n k \<longrightarrow> d \<le> k))"

lemma is_dist_exists: "walk E s0 n k \<Longrightarrow> \<exists>d. is_dist E s0 n d"
  unfolding is_dist_def
  by (metis (mono_tags, lifting) LeastI Least_le)

lemma is_dist_unique: "is_dist E s0 n d \<Longrightarrow> is_dist E s0 n d' \<Longrightarrow> d = d'"
  unfolding is_dist_def by (meson le_antisym)

text \<open>A heuristic is consistent when it is never negative and drops by at most 1 along an edge.\<close>

definition consistent :: "('n \<Rightarrow> 'n \<Rightarrow> bool) \<Rightarrow> ('n \<Rightarrow> int) \<Rightarrow> bool" where
  "consistent E h = ((\<forall>n nb. E n nb \<longrightarrow> h n \<le> h nb + 1) \<and> (\<forall>n. 0 \<le> h n))"

text \<open>
  The invariant of both searches, on the score map \<open>G\<close> (\<open>distances\<close>, \<open>gScore\<close>), the
  parent map \<open>P\<close>, the visited set \<open>V\<close> and the queue \<open>Q\<close>, whose priorities are
  score plus heuristic. \<open>pend\<close> holds the edges out of the position being visited that
  are not relaxed yet.
\<close>

definition search_inv :: "('n \<Rightarrow> 'n \<Rightarrow> bool) \<Rightarrow> ('n \<Rightarrow> int) \<Rightarrow> 'n \<Rightarrow> ('n \<times> 'n) set
    \<Rightarrow> ('n \<rightharpoonup> int) \<Rightarrow> ('n \<rightharpoonup> 'n) \<Rightarrow> 'n set \<Rightarrow> 'n pq_entry list \<Rightarrow> bool" where
  "search_inv E h s0 pend G P V Q =
     (sorted (map priority Q)
      \<and> (\<forall>v \<in> set Q. \<exists>g. G (element v) = Some g \<and> g + h (element v) \<le> priority v)
      \<and> (\<forall>n g. G n = Some g \<longrightarrow> 0 \<le> g \<and> walk E s0 n (nat g) \<and> (n \<in> V \<or> (n, g + h n) \<in> set Q))
      \<and> (\<forall>n \<in> V. \<exists>g. G n = Some g \<and> is_dist E s0 n (nat g))
      \<and> (\<forall>w nb. w \<in> V \<and> E w nb \<and> (w, nb) \<notin> pend \<longrightarrow>
            nb \<in> V \<or> (\<exists>g gw. G nb = Some g \<and> G w = Some gw \<and> g \<le> gw + 1))
      \<and> G s0 = Some 0 \<and> P s0 = None
      \<and> (\<forall>n p. P n = Some p \<longrightarrow> p \<in> V \<and> (\<exists>gp. G p = Some gp \<and> G n = Some (gp + 1)))
      \<and> (\<forall>n. G n \<noteq> None \<and> n \<noteq> s0 \<longrightarrow> P n \<noteq> None))"

lemma search_inv_sorted: "search_inv E h s0 pend G P V Q \<Longrightarrow> sorted (map priority Q)"
  and search_inv_queue: "search_inv E h s0 pend G P V Q \<Longrightarrow> v \<in> set Q
      \<Longrightarrow> \<exists>g. G (element v) = Some g \<and> g + h (element v) \<le> priority v"
  and search_inv_score: "search_inv E h s0 pend G P V Q \<Longrightarrow> G n = Some g
      \<Longrightarrow> 0 \<le> g \<and> walk E s0 n (nat g) \<and> (n \<in> V \<or> (n, g + h n) \<in> set Q)"
  and search_inv_visited: "search_inv E h s0 pend G P V Q \<Longrightarrow> n \<in> V
      \<Longrightarrow> \<exists>g. G n = Some g \<and> is_dist E s0 n (nat g)"
  and search_inv_edge: "search_inv E h s0 pend G P V Q \<Longrightarrow> w \<in> V \<Longrightarrow> E w nb \<Longrightarrow> (w, nb) \<notin> pend
      \<Longrightarrow> nb \<in> V \<or> (\<exists>g gw. G nb = Some g \<and> G w = Some gw \<and> g \<le> gw + 1)"
  and search_inv_start: "search_inv E h s0 pend G P V Q \<Longrightarrow> G s0 = Some 0 \<and> P s0 = None"
  and search_inv_parent: "search_inv E h s0 pend G P V Q \<Longrightarrow> P n = Some p
      \<Longrightarrow> p \<in> V \<and> (\<exists>gp. G p = Some gp \<and> G n = Some (gp + 1))"
  and search_inv_has_parent: "search_inv E h s0 pend G P V Q \<Longrightarrow> G n = Some g \<Longrightarrow> n \<noteq> s0
      \<Longrightarrow> P n \<noteq> None"
  unfolding search_inv_def by blast+

text \<open>Every walk to a position not yet visited passes a queued position of no larger priority.\<close>

lemma frontier:
  assumes inv: "search_inv E h s0 {} G P V Q" and h: "consistent E h"
  shows "walk E s0 m k \<Longrightarrow> m \<notin> V
     \<Longrightarrow> \<exists>u g. u \<notin> V \<and> G u = Some g \<and> g + h u \<le> int k + h m"
proof (induction rule: walk.induct)
  case walk_start
  then show ?case using search_inv_start[OF inv] by auto
next
  case (walk_step n k nb)
  have hh: "h n \<le> h nb + 1" using h walk_step.hyps(2) unfolding consistent_def by blast
  show ?case
  proof (cases "n \<in> V")
    case False
    from walk_step.IH[OF False] obtain u g where "u \<notin> V" "G u = Some g" "g + h u \<le> int k + h n"
      by blast
    then show ?thesis using hh by (intro exI[of _ u] exI[of _ g]) simp
  next
    case True
    obtain gw where gw: "G n = Some gw" "is_dist E s0 n (nat gw)"
      using search_inv_visited[OF inv True] by blast
    have "0 \<le> gw" using search_inv_score[OF inv gw(1)] by simp
    moreover have "nat gw \<le> k" using gw(2) walk_step.hyps(1) unfolding is_dist_def by blast
    ultimately have le: "gw \<le> int k" by simp
    obtain g gw' where g: "G nb = Some g" "G n = Some gw'" "g \<le> gw' + 1"
      using search_inv_edge[OF inv True walk_step.hyps(2)] walk_step.prems by blast
    then have "g \<le> int k + 1" using le gw(1) by simp
    then show ?thesis using g(1) walk_step.prems by (intro exI[of _ nb] exI[of _ g]) simp
  qed
qed

lemma head_least:
  assumes inv: "search_inv E h s0 {} G P V (v # rest)" and u: "u \<notin> V" "G u = Some g"
  shows "priority v \<le> g + h u"
proof -
  have "(u, g + h u) \<in> set (v # rest)" using search_inv_score[OF inv u(2)] u(1) by simp
  moreover have "sorted (map priority (v # rest))" using search_inv_sorted[OF inv] .
  ultimately show ?thesis by (auto simp: priority_def)
qed

text \<open>
  What is known about the head of the queue when its position is not visited yet: its
  score is the distance, and no walk to an unvisited position undercuts its priority.
\<close>

lemma head_settled:
  assumes inv: "search_inv E h s0 {} G P V (v # rest)" and h: "consistent E h"
    and nv: "element v \<notin> V"
  shows "\<exists>g. G (element v) = Some g \<and> 0 \<le> g \<and> is_dist E s0 (element v) (nat g)
            \<and> g + h (element v) \<le> priority v"
    and "walk E s0 m k \<Longrightarrow> m \<notin> V \<Longrightarrow> priority v \<le> int k + h m"
proof -
  obtain g where g: "G (element v) = Some g" "g + h (element v) \<le> priority v"
    using search_inv_queue[OF inv, of v] by auto
  have g0: "0 \<le> g" and w: "walk E s0 (element v) (nat g)"
    using search_inv_score[OF inv g(1)] by simp_all
  have low: "priority v \<le> int k + h m" if wk: "walk E s0 m k" and mv: "m \<notin> V" for m k
  proof -
    obtain u gu where u: "u \<notin> V" "G u = Some gu" "gu + h u \<le> int k + h m"
      using frontier[OF inv h wk mv] by blast
    show ?thesis using head_least[OF inv u(1,2)] u(3) by simp
  qed
  then show "walk E s0 m k \<Longrightarrow> m \<notin> V \<Longrightarrow> priority v \<le> int k + h m" .
  have "nat g \<le> k" if "walk E s0 (element v) k" for k
    using low[OF that nv] g(2) by simp
  then have "is_dist E s0 (element v) (nat g)" using w unfolding is_dist_def by blast
  then show "\<exists>g. G (element v) = Some g \<and> 0 \<le> g \<and> is_dist E s0 (element v) (nat g)
            \<and> g + h (element v) \<le> priority v"
    using g g0 by blast
qed

lemma head_priority_is_score:
  assumes inv: "search_inv E (\<lambda>_. 0) s0 {} G P V (v # rest)" and nv: "element v \<notin> V"
  shows "G (element v) = Some (priority v)"
proof -
  obtain g where g: "G (element v) = Some g" "g \<le> priority v"
    using search_inv_queue[OF inv, of v] by auto
  have "priority v \<le> g" using head_least[OF inv nv g(1)] by simp
  then show ?thesis using g by simp
qed

lemma search_inv_pend:
  assumes "search_inv E h s0 pend G P V Q" and "\<And>w nb. (w, nb) \<in> pend \<Longrightarrow> E w nb \<Longrightarrow> (w, nb) \<in> pend'"
  shows "search_inv E h s0 pend' G P V Q"
  using assms unfolding search_inv_def by blast

lemma pop_skip:
  assumes inv: "search_inv E h s0 {} G P V (v # rest)" and vis: "element v \<in> V"
  shows "search_inv E h s0 {} G P V rest"
proof -
  have "n \<in> V \<or> (n, g + h n) \<in> set rest" if "G n = Some g" for n g
    using search_inv_score[OF inv that] vis by (auto simp: element_def)
  moreover have "sorted (map priority rest)" using search_inv_sorted[OF inv] by simp
  ultimately show ?thesis using inv unfolding search_inv_def by (simp; blast)
qed

lemma pop_visit:
  assumes inv: "search_inv E h s0 {} G P V (v # rest)" and h: "consistent E h"
    and nv: "element v \<notin> V"
  shows "search_inv E h s0 ({element v} \<times> UNIV) G P (insert (element v) V) rest"
proof -
  have a: "n \<in> insert (element v) V \<or> (n, g + h n) \<in> set rest" if "G n = Some g" for n g
    using search_inv_score[OF inv that] by (auto simp: element_def)
  have b: "sorted (map priority rest)" using search_inv_sorted[OF inv] by simp
  have c: "\<exists>g. G (element v) = Some g \<and> is_dist E s0 (element v) (nat g)"
    using head_settled(1)[OF inv h nv] by blast
  show ?thesis
    unfolding search_inv_def
  proof (intro conjI)
    show "sorted (map priority rest)" by (rule b)
    show "\<forall>v\<in>set rest. \<exists>g. G (element v) = Some g \<and> g + h (element v) \<le> priority v"
      using search_inv_queue[OF inv] by simp
    show "\<forall>n g. G n = Some g \<longrightarrow>
        0 \<le> g \<and> walk E s0 n (nat g) \<and> (n \<in> insert (element v) V \<or> (n, g + h n) \<in> set rest)"
      using search_inv_score[OF inv] a by blast
    show "\<forall>n\<in>insert (element v) V. \<exists>g. G n = Some g \<and> is_dist E s0 n (nat g)"
      using search_inv_visited[OF inv] c by blast
    show "\<forall>w nb. w \<in> insert (element v) V \<and> E w nb \<and> (w, nb) \<notin> {element v} \<times> UNIV \<longrightarrow>
        nb \<in> insert (element v) V \<or> (\<exists>g gw. G nb = Some g \<and> G w = Some gw \<and> g \<le> gw + 1)"
      using search_inv_edge[OF inv] by blast
    show "G s0 = Some 0" "P s0 = None" using search_inv_start[OF inv] by simp_all
    show "\<forall>n p. P n = Some p \<longrightarrow> p \<in> insert (element v) V \<and> (\<exists>gp. G p = Some gp \<and> G n = Some (gp + 1))"
      using search_inv_parent[OF inv] by blast
    show "\<forall>n. G n \<noteq> None \<and> n \<noteq> s0 \<longrightarrow> P n \<noteq> None"
      using search_inv_has_parent[OF inv] by blast
  qed
qed

lemma relax_keep:
  assumes inv: "search_inv E h s0 pend G P V Q" and cur: "cur \<in> V" "G cur = Some gc"
    and no: "\<not> E cur nb \<or> nb \<in> V \<or> (\<exists>old. G nb = Some old \<and> old \<le> gc + 1)"
  shows "search_inv E h s0 (pend - {(cur, nb)}) G P V Q"
proof -
  have "nb' \<in> V \<or> (\<exists>g gw. G nb' = Some g \<and> G w = Some gw \<and> g \<le> gw + 1)"
    if "w \<in> V" "E w nb'" "(w, nb') \<notin> pend - {(cur, nb)}" for w nb'
  proof (cases "(w, nb') = (cur, nb)")
    case True
    then show ?thesis using no that cur by auto
  next
    case False
    then show ?thesis using search_inv_edge[OF inv that(1,2)] that(3) by blast
  qed
  then show ?thesis using inv unfolding search_inv_def by blast
qed

lemma relax_update:
  assumes inv: "search_inv E h s0 pend G P V Q" and cur: "cur \<in> V" "G cur = Some gc"
    and s0: "s0 \<in> V" and e: "E cur nb" and nb: "nb \<notin> V"
    and better: "\<And>old. G nb = Some old \<Longrightarrow> gc + 1 < old"
  shows "search_inv E h s0 (pend - {(cur, nb)}) (G(nb \<mapsto> gc + 1)) (P(nb \<mapsto> cur)) V
           (enqueue nb (gc + 1 + h nb) Q)"
proof -
  let ?G = "G(nb \<mapsto> gc + 1)" and ?P = "P(nb \<mapsto> cur)" and ?Q = "enqueue nb (gc + 1 + h nb) Q"
  have gc0: "0 \<le> gc" and wc: "walk E s0 cur (nat gc)" using search_inv_score[OF inv cur(2)] by simp_all
  have ne: "nb \<noteq> cur" "nb \<noteq> s0" using cur(1) s0 nb by auto
  have wnb: "walk E s0 nb (nat (gc + 1))"
    using walk_step[OF wc e] gc0 by (simp add: nat_add_distrib)
  show ?thesis
    unfolding search_inv_def
  proof (intro conjI)
    show "sorted (map priority ?Q)" by (simp add: enqueue_def pq_sort_def)
    show "\<forall>v\<in>set ?Q. \<exists>g. ?G (element v) = Some g \<and> g + h (element v) \<le> priority v"
    proof
      fix v assume "v \<in> set ?Q"
      then consider "v = (nb, gc + 1 + h nb)" | "v \<in> set Q" by auto
      then show "\<exists>g. ?G (element v) = Some g \<and> g + h (element v) \<le> priority v"
      proof cases
        case 1
        then show ?thesis by (simp add: element_def priority_def)
      next
        case 2
        then obtain g where g: "G (element v) = Some g" "g + h (element v) \<le> priority v"
          using search_inv_queue[OF inv] by blast
        show ?thesis
        proof (cases "element v = nb")
          case True
          then show ?thesis using better[of g] g by simp
        next
          case False
          then show ?thesis using g by simp
        qed
      qed
    qed
    show "\<forall>n g. ?G n = Some g \<longrightarrow> 0 \<le> g \<and> walk E s0 n (nat g) \<and> (n \<in> V \<or> (n, g + h n) \<in> set ?Q)"
    proof (intro allI impI)
      fix n g assume h: "?G n = Some g"
      show "0 \<le> g \<and> walk E s0 n (nat g) \<and> (n \<in> V \<or> (n, g + h n) \<in> set ?Q)"
      proof (cases "n = nb")
        case True
        then show ?thesis using h gc0 wnb by auto
      next
        case False
        then show ?thesis using h search_inv_score[OF inv, of n g] by auto
      qed
    qed
    show "\<forall>n\<in>V. \<exists>g. ?G n = Some g \<and> is_dist E s0 n (nat g)"
      using search_inv_visited[OF inv] nb by auto
    show "\<forall>w nb'. w \<in> V \<and> E w nb' \<and> (w, nb') \<notin> pend - {(cur, nb)} \<longrightarrow>
        nb' \<in> V \<or> (\<exists>g gw. ?G nb' = Some g \<and> ?G w = Some gw \<and> g \<le> gw + 1)"
    proof (intro allI impI)
      fix w nb' assume a: "w \<in> V \<and> E w nb' \<and> (w, nb') \<notin> pend - {(cur, nb)}"
      then have wn: "w \<noteq> nb" using nb by auto
      show "nb' \<in> V \<or> (\<exists>g gw. ?G nb' = Some g \<and> ?G w = Some gw \<and> g \<le> gw + 1)"
      proof (cases "(w, nb') = (cur, nb)")
        case True
        then show ?thesis using cur wn by auto
      next
        case False
        then have "nb' \<in> V \<or> (\<exists>g gw. G nb' = Some g \<and> G w = Some gw \<and> g \<le> gw + 1)"
          using search_inv_edge[OF inv, of w nb'] a by blast
        then show ?thesis
        proof
          assume "nb' \<in> V" then show ?thesis by simp
        next
          assume "\<exists>g gw. G nb' = Some g \<and> G w = Some gw \<and> g \<le> gw + 1"
          then obtain g gw where g: "G nb' = Some g" "G w = Some gw" "g \<le> gw + 1" by blast
          show ?thesis
          proof (cases "nb' = nb")
            case True
            then show ?thesis using better[of g] g wn by auto
          next
            case False
            then show ?thesis using g wn by auto
          qed
        qed
      qed
    qed
    show "?G s0 = Some 0" "?P s0 = None" using search_inv_start[OF inv] ne by simp_all
    show "\<forall>n p. ?P n = Some p \<longrightarrow> p \<in> V \<and> (\<exists>gp. ?G p = Some gp \<and> ?G n = Some (gp + 1))"
    proof (intro allI impI)
      fix n p assume h: "?P n = Some p"
      show "p \<in> V \<and> (\<exists>gp. ?G p = Some gp \<and> ?G n = Some (gp + 1))"
      proof (cases "n = nb")
        case True
        then show ?thesis using h cur ne by auto
      next
        case False
        then have "P n = Some p" using h by simp
        from search_inv_parent[OF inv this] obtain gp where
          "p \<in> V" "G p = Some gp" "G n = Some (gp + 1)" by blast
        then show ?thesis using False nb by auto
      qed
    qed
    show "\<forall>n. ?G n \<noteq> None \<and> n \<noteq> s0 \<longrightarrow> ?P n \<noteq> None"
      using search_inv_has_parent[OF inv] by auto
  qed
qed

text \<open>The walk back from a scored position has as many positions as its score plus one.\<close>

lemma reconstruct_from_length:
  assumes inv: "search_inv E h s0 pend G P V Q"
  shows "G c = Some g \<Longrightarrow>
     \<exists>p. reconstruct_from P s0 c acc = Some p \<and> length p = nat g + 1 + length acc"
proof (induction "nat g" arbitrary: c g acc rule: less_induct)
  case less
  have g0: "0 \<le> g" using search_inv_score[OF inv less.prems] by simp
  show ?case
  proof (cases "P c")
    case None
    then have "c = s0" using search_inv_has_parent[OF inv less.prems] by blast
    then have "g = 0" using search_inv_start[OF inv] less.prems by simp
    then show ?thesis using None by (subst reconstruct_from.simps) simp
  next
    case (Some nxt)
    obtain gp where gp: "G nxt = Some gp" "G c = Some (gp + 1)"
      using search_inv_parent[OF inv Some] by blast
    then have g: "g = gp + 1" using less.prems by simp
    have gp0: "0 \<le> gp" using search_inv_score[OF inv gp(1)] by simp
    show ?thesis
    proof (cases "row nxt = row s0 \<and> col nxt = col s0")
      case True
      then have "nxt = s0" by (simp add: same_cell)
      then have "gp = 0" using search_inv_start[OF inv] gp(1) by simp
      then show ?thesis using Some True g by (subst reconstruct_from.simps) simp
    next
      case False
      have "nat gp < nat g" using g gp0 by simp
      from less.hyps[OF this gp(1), of "c # acc"] obtain p where
        "reconstruct_from P s0 nxt (c # acc) = Some p" "length p = nat gp + 1 + length (c # acc)"
        by blast
      then show ?thesis using Some False g gp0
        by (subst reconstruct_from.simps) (auto simp: nat_add_distrib)
    qed
  qed
qed

section \<open>Dijkstra and A* find the same distance\<close>

definition edge :: "int \<Rightarrow> int \<Rightarrow> pos set \<Rightarrow> pos \<Rightarrow> pos \<Rightarrow> bool" where
  "edge rows cols walls n nb = (nb \<in> set (getNeighbors (row n) (col n) rows cols) \<and> nb \<notin> walls)"

lemma reachable_walk:
  "n \<in> reachable rows cols walls s0 \<Longrightarrow> \<exists>k. walk (edge rows cols walls) s0 n k"
proof (induction rule: reachable.induct)
  case reach_start
  show ?case by (rule exI[of _ 0]) (rule walk_start)
next
  case (reach_step n nb)
  then obtain k where "walk (edge rows cols walls) s0 n k" by blast
  moreover have "edge rows cols walls n nb" using reach_step.hyps by (simp add: edge_def)
  ultimately have "walk (edge rows cols walls) s0 nb (Suc k)" by (rule walk_step)
  then show ?case by (rule exI)
qed

lemma consistent_zero: "consistent E (\<lambda>_. 0)"
  by (simp add: consistent_def)

definition d_inv :: "int \<Rightarrow> int \<Rightarrow> pos set \<Rightarrow> pos \<Rightarrow> (pos \<times> pos) set \<Rightarrow> dijkstra_state \<Rightarrow> bool" where
  "d_inv rows cols walls s0 pend s =
     search_inv (edge rows cols walls) (\<lambda>_. 0) s0 pend
       (d_distances s) (d_previous s) (set (d_visited s)) (d_pq s)"

lemma dijkstra_relax_search:
  assumes inv: "d_inv rows cols walls s0 pend s" and cur: "cur \<in> set (d_visited s)"
    "d_distances s cur = Some cd" and s0: "s0 \<in> set (d_visited s)"
    and nb: "nb \<in> set (getNeighbors (row cur) (col cur) rows cols)"
  shows "d_inv rows cols walls s0 (pend - {(cur, nb)}) (dijkstra_relax walls cur cd nb s)
     \<and> d_visited (dijkstra_relax walls cur cd nb s) = d_visited s
     \<and> d_distances (dijkstra_relax walls cur cd nb s) cur = Some cd"
proof (cases "nb \<in> walls \<or> set_has nb (d_visited s)")
  case True
  then have same: "dijkstra_relax walls cur cd nb s = s" by (simp add: dijkstra_relax_def)
  have "\<not> edge rows cols walls cur nb \<or> nb \<in> set (d_visited s)"
    using True by (auto simp: edge_def set_has_def)
  then show ?thesis
    using relax_keep[OF inv[unfolded d_inv_def] cur, of nb] cur(2) unfolding same d_inv_def by blast
next
  case False
  then have e: "edge rows cols walls cur nb" and nv: "nb \<notin> set (d_visited s)"
    using nb by (auto simp: edge_def set_has_def)
  have ne: "nb \<noteq> cur" using cur(1) nv by auto
  show ?thesis
  proof (cases "case d_distances s nb of None \<Rightarrow> True | Some oldDist \<Rightarrow> cd + 1 < oldDist")
    case True
    then have better: "\<And>old. d_distances s nb = Some old \<Longrightarrow> cd + 1 < old" by simp
    have upd: "dijkstra_relax walls cur cd nb s =
        s\<lparr>d_distances := (d_distances s)(nb \<mapsto> cd + 1), d_previous := (d_previous s)(nb \<mapsto> cur),
          d_pq := enqueue nb (cd + 1) (d_pq s),
          d_steps := d_steps s @ [(new_step Update)\<lparr>current := Some cur,
                                  neighbor := Some nb, distance := Some (cd + 1),
                                  visited := Some (d_visited s)\<rparr>]\<rparr>"
      using False True by (simp add: dijkstra_relax_def Let_def)
    show ?thesis
      using relax_update[OF inv[unfolded d_inv_def] cur s0 e nv better] cur(2) ne
      unfolding upd d_inv_def by simp
  next
    case nb': False
    then obtain old where old: "d_distances s nb = Some old" "old \<le> cd + 1"
      by (cases "d_distances s nb") auto
    have same: "dijkstra_relax walls cur cd nb s = s"
      using False nb' by (simp add: dijkstra_relax_def Let_def)
    show ?thesis
      using relax_keep[OF inv[unfolded d_inv_def] cur, of nb] old cur(2) unfolding same d_inv_def by blast
  qed
qed

lemma dijkstra_relax_fold_search:
  "d_inv rows cols walls s0 pend s \<Longrightarrow> cur \<in> set (d_visited s) \<Longrightarrow> d_distances s cur = Some cd
   \<Longrightarrow> s0 \<in> set (d_visited s) \<Longrightarrow> set nbs \<subseteq> set (getNeighbors (row cur) (col cur) rows cols)
   \<Longrightarrow> d_inv rows cols walls s0 (pend - {cur} \<times> set nbs) (fold (dijkstra_relax walls cur cd) nbs s)"
proof (induction nbs arbitrary: s pend)
  case Nil
  then show ?case by simp
next
  case (Cons nb nbs)
  have nb: "nb \<in> set (getNeighbors (row cur) (col cur) rows cols)" using Cons.prems(5) by simp
  note st = dijkstra_relax_search[OF Cons.prems(1-4) nb]
  have "d_inv rows cols walls s0 (pend - {(cur, nb)} - {cur} \<times> set nbs)
      (fold (dijkstra_relax walls cur cd) nbs (dijkstra_relax walls cur cd nb s))"
    using Cons.IH[of "pend - {(cur, nb)}" "dijkstra_relax walls cur cd nb s"] st Cons.prems by simp
  moreover have "pend - {(cur, nb)} - {cur} \<times> set nbs = pend - {cur} \<times> set (nb # nbs)" by auto
  ultimately show ?case by simp
qed

text \<open>What the \<open>path-found\<close> step of a finished search says, for the distance \<open>dT\<close> of the goal.\<close>

definition found_result :: "step list \<Rightarrow> nat \<Rightarrow> pos list \<Rightarrow> bool" where
  "found_result res dT vis =
     (type (last res) = PathFound \<and> distance (last res) = Some (int dT)
      \<and> (\<exists>p. path (last res) = Some p \<and> length p = dT + 1)
      \<and> visited (last res) = Some vis \<and> distinct vis)"

lemma dijkstra_loop_finds:
  assumes "d_inv rows cols walls s0 {} s"
    and "s0 \<in> set (d_visited s) \<or> (d_visited s = [] \<and> d_pq s = [(s0, 0)])"
    and "distinct (d_visited s)"
    and "is_dist (edge rows cols walls) s0 end_p dT" and "end_p \<notin> set (d_visited s)"
  shows "\<exists>res vis. dijkstra_loop rows cols s0 end_p walls s = Some res \<and> found_result res dT vis
     \<and> end_p \<in> set vis
     \<and> (\<forall>n k. walk (edge rows cols walls) s0 n k \<and> k < dT \<longrightarrow> n \<in> set vis)"
  using assms
proof (induction rows cols s0 end_p walls s rule: dijkstra_loop.induct)
  case (1 rows cols s0 end_p walls s)
  let ?E = "edge rows cols walls"
  note inv = "1.prems"(1)[unfolded d_inv_def]
  have wT: "walk ?E s0 end_p dT" using "1.prems"(4) by (simp add: is_dist_def)
  show ?case
  proof (cases "d_pq s")
    case Nil
    obtain u g where "u \<notin> set (d_visited s)" "d_distances s u = Some g"
      using frontier[OF inv consistent_zero wT "1.prems"(5)] by blast
    then have False using search_inv_score[OF inv, of u g] Nil by simp
    then show ?thesis ..
  next
    case (Cons v rest)
    note inv' = inv[unfolded Cons]
    show ?thesis
    proof (cases "set_has (element v) (d_visited s)")
      case True
      then have ev: "element v \<in> set (d_visited s)" by (simp add: set_has_def)
      have i: "d_inv rows cols walls s0 {} (s\<lparr>d_pq := rest\<rparr>)"
        using pop_skip[OF inv' ev] by (simp add: d_inv_def)
      have st: "s0 \<in> set (d_visited s)" using "1.prems"(2) ev Cons by auto
      have "\<exists>res vis. dijkstra_loop rows cols s0 end_p walls (s\<lparr>d_pq := rest\<rparr>) = Some res
          \<and> found_result res dT vis \<and> end_p \<in> set vis
          \<and> (\<forall>n k. walk ?E s0 n k \<and> k < dT \<longrightarrow> n \<in> set vis)"
        using "1.IH"(1)[OF Cons True i] st "1.prems"(3,4,5) by simp
      then show ?thesis using Cons True by (subst dijkstra_loop.simps) simp
    next
      case False
      define cur where "cur = element v"
      define cd where "cd = priority v"
      define vis1 where "vis1 = set_add cur (d_visited s)"
      define ss1 where "ss1 = d_steps s @ [(new_step Visit)\<lparr>current := Some cur,
                           distance := Some cd, visited := Some vis1\<rparr>]"
      have nv: "element v \<notin> set (d_visited s)" using False by (simp add: set_has_def)
      have v1: "vis1 = d_visited s @ [cur]" "set vis1 = insert cur (set (d_visited s))" "distinct vis1"
        using nv "1.prems"(3) by (simp_all add: vis1_def set_add_def cur_def)
      have Dc: "d_distances s cur = Some cd"
        using head_priority_is_score[OF inv' nv] by (simp add: cur_def cd_def)
      obtain g where "d_distances s cur = Some g" "0 \<le> g" "is_dist ?E s0 cur (nat g)"
        using head_settled(1)[OF inv' consistent_zero nv] unfolding cur_def by blast
      then have cd0: "0 \<le> cd" and dc: "is_dist ?E s0 cur (nat cd)" using Dc by simp_all
      have low: "\<And>m k. walk ?E s0 m k \<Longrightarrow> m \<notin> set (d_visited s) \<Longrightarrow> cd \<le> int k"
        using head_settled(2)[OF inv' consistent_zero nv] by (simp add: cd_def)
      show ?thesis
      proof (cases "row cur = row end_p \<and> col cur = col end_p")
        case True
        then have ce: "cur = end_p" by (simp add: same_cell)
        have "nat cd = dT" using is_dist_unique[OF dc] "1.prems"(4) ce by simp
        then have cdT: "cd = int dT" using cd0 by simp
        obtain p where p: "reconstructPath (d_previous s) s0 end_p = Some p" "length p = dT + 1"
          using reconstruct_from_length[OF inv, of end_p cd "[]"] Dc ce cdT
          by (auto simp: reconstructPath_def)
        let ?res = "ss1 @ [(new_step PathFound)\<lparr>path := Some p,
                                    distance := Some cd, visited := Some vis1\<rparr>]"
        have r: "dijkstra_loop rows cols s0 end_p walls s = Some ?res"
          using Cons False True p(1)
          by (subst dijkstra_loop.simps) (simp add: Let_def cur_def cd_def vis1_def ss1_def)
        have f: "found_result ?res dT vis1"
          using p(2) cdT v1(3) by (simp add: found_result_def)
        have "n \<in> set vis1" if "walk ?E s0 n k" "k < dT" for n k
          using low[OF that(1)] that(2) cdT v1(2) by fastforce
        then show ?thesis using r f v1(2) ce by blast
      next
        case ne: False
        then have ce: "cur \<noteq> end_p" by (simp add: same_cell)
        let ?s1 = "s\<lparr>d_pq := rest, d_visited := vis1, d_steps := ss1\<rparr>"
        let ?nbs = "getNeighbors (row cur) (col cur) rows cols"
        let ?s2 = "fold (dijkstra_relax walls cur cd) ?nbs ?s1"
        have i1: "d_inv rows cols walls s0 ({cur} \<times> UNIV) ?s1"
          using pop_visit[OF inv' consistent_zero nv] v1(2) by (simp add: d_inv_def cur_def)
        have s0v: "s0 \<in> set (d_visited ?s1)"
        proof (cases "s0 \<in> set (d_visited s)")
          case True
          then show ?thesis using v1(2) by simp
        next
          case False
          then have "d_pq s = [(s0, 0)]" using "1.prems"(2) by blast
          then have "cur = s0" using Cons by (simp add: cur_def element_def)
          then show ?thesis using v1(2) by simp
        qed
        have "d_inv rows cols walls s0 ({cur} \<times> UNIV - {cur} \<times> set ?nbs) ?s2"
          using dijkstra_relax_fold_search[OF i1 _ _ s0v subset_refl, where cd=cd] Dc v1(2) by simp
        then have i2: "d_inv rows cols walls s0 {} ?s2"
          unfolding d_inv_def by (rule search_inv_pend) (auto simp: edge_def)
        have fr: "d_visited ?s2 = vis1"
          using dijkstra_relax_fold_frame[of walls cur cd ?nbs ?s1] by simp
        have "\<exists>res vis. dijkstra_loop rows cols s0 end_p walls ?s2 = Some res
            \<and> found_result res dT vis \<and> end_p \<in> set vis
            \<and> (\<forall>n k. walk ?E s0 n k \<and> k < dT \<longrightarrow> n \<in> set vis)"
        proof (rule "1.IH"(2)[OF Cons False cur_def cd_def vis1_def ss1_def ne i2])
          show "s0 \<in> set (d_visited ?s2) \<or> d_visited ?s2 = [] \<and> d_pq ?s2 = [(s0, 0)]"
            using s0v fr by simp
          show "distinct (d_visited ?s2)" using fr v1(3) by simp
          show "is_dist ?E s0 end_p dT" by (rule "1.prems"(4))
          show "end_p \<notin> set (d_visited ?s2)" using fr v1(2) ce "1.prems"(5) by simp
        qed
        moreover have "dijkstra_loop rows cols s0 end_p walls s
            = dijkstra_loop rows cols s0 end_p walls ?s2"
          using Cons False ne
          by (subst dijkstra_loop.simps) (auto simp: Let_def cur_def cd_def vis1_def ss1_def)
        ultimately show ?thesis by simp
      qed
    qed
  qed
qed

lemma manhattan_consistent:
  "consistent (edge rows cols walls) (\<lambda>n. manhattanDistance n end_p)"
  unfolding consistent_def
proof (intro conjI allI impI)
  fix n nb assume "edge rows cols walls n nb"
  then have "nb \<in> set (map (\<lambda>(dr, dc). (row n + dr, col n + dc)) directions)"
    by (auto simp: edge_def getNeighbors_def)
  then show "manhattanDistance n end_p \<le> manhattanDistance nb end_p + 1"
    by (auto simp: manhattanDistance_def directions_def row_def col_def)
next
  fix n show "0 \<le> manhattanDistance n end_p" by (simp add: manhattanDistance_def)
qed

lemma manhattan_zero [simp]: "manhattanDistance p p = 0"
  by (simp add: manhattanDistance_def)

lemma manhattan_pos: "n \<noteq> end_p \<Longrightarrow> 1 \<le> manhattanDistance n end_p"
  by (cases n; cases end_p) (auto simp: manhattanDistance_def row_def col_def)

definition a_inv :: "int \<Rightarrow> int \<Rightarrow> pos set \<Rightarrow> pos \<Rightarrow> pos \<Rightarrow> (pos \<times> pos) set \<Rightarrow> astar_state \<Rightarrow> bool" where
  "a_inv rows cols walls s0 end_p pend s =
     search_inv (edge rows cols walls) (\<lambda>n. manhattanDistance n end_p) s0 pend
       (a_gScore s) (a_previous s) (set (a_visited s)) (a_openSet s)"

lemma astar_relax_search:
  assumes inv: "a_inv rows cols walls s0 end_p pend s" and cur: "cur \<in> set (a_visited s)"
    "a_gScore s cur = Some gc" and s0: "s0 \<in> set (a_visited s)"
    and nb: "nb \<in> set (getNeighbors (row cur) (col cur) rows cols)"
  shows "a_inv rows cols walls s0 end_p (pend - {(cur, nb)}) (astar_relax walls end_p cur (Some gc) nb s)
     \<and> a_visited (astar_relax walls end_p cur (Some gc) nb s) = a_visited s
     \<and> a_gScore (astar_relax walls end_p cur (Some gc) nb s) cur = Some gc"
proof (cases "nb \<in> walls \<or> set_has nb (a_visited s)")
  case True
  then have same: "astar_relax walls end_p cur (Some gc) nb s = s" by (simp add: astar_relax_def)
  have "\<not> edge rows cols walls cur nb \<or> nb \<in> set (a_visited s)"
    using True by (auto simp: edge_def set_has_def)
  then show ?thesis
    using relax_keep[OF inv[unfolded a_inv_def] cur, of nb] cur(2) unfolding same a_inv_def by blast
next
  case False
  then have e: "edge rows cols walls cur nb" and nv: "nb \<notin> set (a_visited s)"
    using nb by (auto simp: edge_def set_has_def)
  have ne: "nb \<noteq> cur" using cur(1) nv by auto
  show ?thesis
  proof (cases "case a_gScore s nb of None \<Rightarrow> True | Some oldG \<Rightarrow> gc + 1 < oldG")
    case True
    then have better: "\<And>old. a_gScore s nb = Some old \<Longrightarrow> gc + 1 < old" by simp
    have upd: "astar_relax walls end_p cur (Some gc) nb s =
        s\<lparr>a_gScore := (a_gScore s)(nb \<mapsto> gc + 1),
          a_fScore := (a_fScore s)(nb \<mapsto> gc + 1 + manhattanDistance nb end_p),
          a_previous := (a_previous s)(nb \<mapsto> cur),
          a_openSet := enqueue nb (gc + 1 + manhattanDistance nb end_p) (a_openSet s),
          a_steps := a_steps s @ [(new_step Update)\<lparr>current := Some cur,
                                         neighbor := Some nb, gScore := Some (gc + 1),
                                         hScore := Some (manhattanDistance nb end_p),
                                         fScore := Some (gc + 1 + manhattanDistance nb end_p),
                                         visited := Some (a_visited s)\<rparr>]\<rparr>"
      using False True by (simp add: astar_relax_def Let_def)
    show ?thesis
      using relax_update[OF inv[unfolded a_inv_def] cur s0 e nv better] cur(2) ne
      unfolding upd a_inv_def by simp
  next
    case nb': False
    then obtain old where old: "a_gScore s nb = Some old" "old \<le> gc + 1"
      by (cases "a_gScore s nb") auto
    have same: "astar_relax walls end_p cur (Some gc) nb s = s"
      using False nb' by (simp add: astar_relax_def Let_def)
    show ?thesis
      using relax_keep[OF inv[unfolded a_inv_def] cur, of nb] old cur(2) unfolding same a_inv_def by blast
  qed
qed

lemma astar_relax_fold_search:
  "a_inv rows cols walls s0 end_p pend s \<Longrightarrow> cur \<in> set (a_visited s) \<Longrightarrow> a_gScore s cur = Some gc
   \<Longrightarrow> s0 \<in> set (a_visited s) \<Longrightarrow> set nbs \<subseteq> set (getNeighbors (row cur) (col cur) rows cols)
   \<Longrightarrow> a_inv rows cols walls s0 end_p (pend - {cur} \<times> set nbs)
         (fold (astar_relax walls end_p cur (Some gc)) nbs s)"
proof (induction nbs arbitrary: s pend)
  case Nil
  then show ?case by simp
next
  case (Cons nb nbs)
  have nb: "nb \<in> set (getNeighbors (row cur) (col cur) rows cols)" using Cons.prems(5) by simp
  note st = astar_relax_search[OF Cons.prems(1-4) nb]
  have "a_inv rows cols walls s0 end_p (pend - {(cur, nb)} - {cur} \<times> set nbs)
      (fold (astar_relax walls end_p cur (Some gc)) nbs (astar_relax walls end_p cur (Some gc) nb s))"
    using Cons.IH[of "pend - {(cur, nb)}" "astar_relax walls end_p cur (Some gc) nb s"] st Cons.prems
    by simp
  moreover have "pend - {(cur, nb)} - {cur} \<times> set nbs = pend - {cur} \<times> set (nb # nbs)" by auto
  ultimately show ?case by simp
qed

lemma aStar_loop_finds:
  assumes "a_inv rows cols walls s0 end_p {} s"
    and "s0 \<in> set (a_visited s)
         \<or> (a_visited s = [] \<and> a_openSet s = [(s0, manhattanDistance s0 end_p)])"
    and "distinct (a_visited s)"
    and "is_dist (edge rows cols walls) s0 end_p dT" and "end_p \<notin> set (a_visited s)"
    and "\<forall>n \<in> set (a_visited s). \<exists>d. is_dist (edge rows cols walls) s0 n d
           \<and> int d + manhattanDistance n end_p \<le> int dT"
  shows "\<exists>res vis. aStar_loop rows cols s0 end_p walls s = Some res \<and> found_result res dT vis
     \<and> (\<forall>n \<in> set vis. n = end_p \<or> (\<exists>k. walk (edge rows cols walls) s0 n k \<and> k < dT))"
  using assms
proof (induction rows cols s0 end_p walls s rule: aStar_loop.induct)
  case (1 rows cols s0 end_p walls s)
  let ?E = "edge rows cols walls"
  let ?h = "\<lambda>n. manhattanDistance n end_p"
  note inv = "1.prems"(1)[unfolded a_inv_def]
  note hc = manhattan_consistent[of rows cols walls end_p]
  have wT: "walk ?E s0 end_p dT" using "1.prems"(4) by (simp add: is_dist_def)
  show ?case
  proof (cases "a_openSet s")
    case Nil
    obtain u g where "u \<notin> set (a_visited s)" "a_gScore s u = Some g"
      using frontier[OF inv hc wT "1.prems"(5)] by blast
    then have False using search_inv_score[OF inv, of u g] Nil by simp
    then show ?thesis ..
  next
    case (Cons v rest)
    note inv' = inv[unfolded Cons]
    show ?thesis
    proof (cases "set_has (element v) (a_visited s)")
      case True
      then have ev: "element v \<in> set (a_visited s)" by (simp add: set_has_def)
      have i: "a_inv rows cols walls s0 end_p {} (s\<lparr>a_openSet := rest\<rparr>)"
        using pop_skip[OF inv' ev] by (simp add: a_inv_def)
      have st: "s0 \<in> set (a_visited s)" using "1.prems"(2) ev Cons by auto
      have "\<exists>res vis. aStar_loop rows cols s0 end_p walls (s\<lparr>a_openSet := rest\<rparr>) = Some res
          \<and> found_result res dT vis
          \<and> (\<forall>n \<in> set vis. n = end_p \<or> (\<exists>k. walk ?E s0 n k \<and> k < dT))"
        using "1.IH"(1)[OF Cons True i] st "1.prems"(3,4,5,6) by simp
      then show ?thesis using Cons True by (subst aStar_loop.simps) simp
    next
      case False
      define cur where "cur = element v"
      define vis1 where "vis1 = set_add cur (a_visited s)"
      define g where "g = a_gScore s cur"
      define h where "h = manhattanDistance cur end_p"
      define f where "f = map_option (\<lambda>gv. gv + h) g"
      define ss1 where "ss1 = a_steps s @ [(new_step Visit)\<lparr>current := Some cur, gScore := g,
                           hScore := Some h, fScore := f, visited := Some vis1\<rparr>]"
      have nv: "element v \<notin> set (a_visited s)" using False by (simp add: set_has_def)
      have v1: "vis1 = a_visited s @ [cur]" "set vis1 = insert cur (set (a_visited s))" "distinct vis1"
        using nv "1.prems"(3) by (simp_all add: vis1_def set_add_def cur_def)
      obtain gc where gc: "a_gScore s cur = Some gc" "0 \<le> gc" "is_dist ?E s0 cur (nat gc)"
          "gc + manhattanDistance cur end_p \<le> priority v"
        using head_settled(1)[OF inv' hc nv] unfolding cur_def by blast
      have gS: "g = Some gc" using gc(1) by (simp add: g_def)
      have "priority v \<le> int dT + manhattanDistance end_p end_p"
        using head_settled(2)[OF inv' hc nv wT "1.prems"(5)] .
      then have bound: "gc + manhattanDistance cur end_p \<le> int dT" using gc(4) by simp
      show ?thesis
      proof (cases "row cur = row end_p \<and> col cur = col end_p")
        case True
        then have ce: "cur = end_p" by (simp add: same_cell)
        have "nat gc = dT" using is_dist_unique[OF gc(3)] "1.prems"(4) ce by simp
        then have gT: "gc = int dT" using gc(2) by simp
        obtain p where p: "reconstructPath (a_previous s) s0 end_p = Some p" "length p = dT + 1"
          using reconstruct_from_length[OF inv, of end_p gc "[]"] gc(1) ce gT
          by (auto simp: reconstructPath_def)
        let ?res = "ss1 @ [(new_step PathFound)\<lparr>path := Some p,
                                    distance := g, visited := Some vis1\<rparr>]"
        have r: "aStar_loop rows cols s0 end_p walls s = Some ?res"
          using Cons False True p(1)
          by (subst aStar_loop.simps)
            (simp add: Let_def cur_def vis1_def g_def h_def f_def ss1_def)
        have fr: "found_result ?res dT vis1"
          using p(2) gT gS v1(3) by (simp add: found_result_def)
        have "n = end_p \<or> (\<exists>k. walk ?E s0 n k \<and> k < dT)" if "n \<in> set vis1" for n
        proof (cases "n = end_p")
          case True then show ?thesis by simp
        next
          case False
          then have "n \<in> set (a_visited s)" using that v1(2) ce by simp
          then obtain d where d: "is_dist ?E s0 n d" "int d + manhattanDistance n end_p \<le> int dT"
            using "1.prems"(6) by blast
          then have "d < dT" using manhattan_pos[OF False] by simp
          then show ?thesis using d(1) unfolding is_dist_def by blast
        qed
        then show ?thesis using r fr by blast
      next
        case ne: False
        then have ce: "cur \<noteq> end_p" by (simp add: same_cell)
        let ?s1 = "s\<lparr>a_openSet := rest, a_visited := vis1, a_steps := ss1\<rparr>"
        let ?nbs = "getNeighbors (row cur) (col cur) rows cols"
        let ?s2 = "fold (astar_relax walls end_p cur g) ?nbs ?s1"
        have i1: "a_inv rows cols walls s0 end_p ({cur} \<times> UNIV) ?s1"
          using pop_visit[OF inv' hc nv] v1(2) by (simp add: a_inv_def cur_def)
        have s0v: "s0 \<in> set (a_visited ?s1)"
        proof (cases "s0 \<in> set (a_visited s)")
          case True
          then show ?thesis using v1(2) by simp
        next
          case False
          then have "a_openSet s = [(s0, manhattanDistance s0 end_p)]" using "1.prems"(2) by blast
          then have "cur = s0" using Cons by (simp add: cur_def element_def)
          then show ?thesis using v1(2) by simp
        qed
        have "a_inv rows cols walls s0 end_p ({cur} \<times> UNIV - {cur} \<times> set ?nbs) ?s2"
          using astar_relax_fold_search[OF i1 _ _ s0v subset_refl, where gc=gc] gc(1) gS v1(2) by simp
        then have i2: "a_inv rows cols walls s0 end_p {} ?s2"
          unfolding a_inv_def by (rule search_inv_pend) (auto simp: edge_def)
        have fr: "a_visited ?s2 = vis1"
          using astar_relax_fold_frame[of walls end_p cur g ?nbs ?s1] by simp
        have "\<exists>res vis. aStar_loop rows cols s0 end_p walls ?s2 = Some res
            \<and> found_result res dT vis
            \<and> (\<forall>n \<in> set vis. n = end_p \<or> (\<exists>k. walk ?E s0 n k \<and> k < dT))"
        proof (rule "1.IH"(2)[OF Cons False cur_def vis1_def g_def h_def f_def ss1_def ne i2])
          show "s0 \<in> set (a_visited ?s2)
              \<or> a_visited ?s2 = [] \<and> a_openSet ?s2 = [(s0, manhattanDistance s0 end_p)]"
            using s0v fr by simp
          show "distinct (a_visited ?s2)" using fr v1(3) by simp
          show "is_dist ?E s0 end_p dT" by (rule "1.prems"(4))
          show "end_p \<notin> set (a_visited ?s2)" using fr v1(2) ce "1.prems"(5) by simp
          show "\<forall>n \<in> set (a_visited ?s2). \<exists>d. is_dist ?E s0 n d
              \<and> int d + manhattanDistance n end_p \<le> int dT"
          proof
            fix n assume "n \<in> set (a_visited ?s2)"
            then consider "n = cur" | "n \<in> set (a_visited s)" using fr v1(2) by auto
            then show "\<exists>d. is_dist ?E s0 n d \<and> int d + manhattanDistance n end_p \<le> int dT"
            proof cases
              case 1
              then show ?thesis using gc(2,3) bound by (intro exI[of _ "nat gc"]) simp
            next
              case 2
              then show ?thesis using "1.prems"(6) by blast
            qed
          qed
        qed
        moreover have "aStar_loop rows cols s0 end_p walls s
            = aStar_loop rows cols s0 end_p walls ?s2"
          using Cons False ne
          by (subst aStar_loop.simps) (auto simp: Let_def cur_def vis1_def g_def h_def f_def ss1_def)
        ultimately show ?thesis by simp
      qed
    qed
  qed
qed

lemma search_inv_init:
  "search_inv E h s0 {} [s0 \<mapsto> 0] Map.empty {} [(s0, h s0)]"
  unfolding search_inv_def
  by (auto simp: element_def priority_def intro: walk_start split: if_splits)

lemma dijkstra_finds:
  assumes "is_dist (edge rows cols walls) start_p end_p dT"
  shows "\<exists>res vis. dijkstra rows cols start_p end_p walls = Some res \<and> found_result res dT vis
     \<and> end_p \<in> set vis
     \<and> (\<forall>n k. walk (edge rows cols walls) start_p n k \<and> k < dT \<longrightarrow> n \<in> set vis)"
  unfolding dijkstra_def
proof (rule dijkstra_loop_finds[OF _ _ _ assms])
  let ?s = "\<lparr>d_distances = [start_p \<mapsto> 0], d_previous = Map.empty, d_visited = [],
        d_pq = enqueue start_p 0 [],
        d_steps = [(new_step Init)\<lparr>start := Some start_p, end_pos := Some end_p\<rparr>]\<rparr>"
  have q: "enqueue start_p 0 [] = [(start_p, 0)]" by (simp add: enqueue_def pq_sort_def)
  show "d_inv rows cols walls start_p {} ?s"
    using search_inv_init[of "edge rows cols walls" "\<lambda>_. 0" start_p] by (simp add: d_inv_def q)
  show "start_p \<in> set (d_visited ?s) \<or> d_visited ?s = [] \<and> d_pq ?s = [(start_p, 0)]"
    by (simp add: q)
  show "distinct (d_visited ?s)" by simp
  show "end_p \<notin> set (d_visited ?s)" by simp
qed

lemma aStar_finds:
  assumes "is_dist (edge rows cols walls) start_p end_p dT"
  shows "\<exists>res vis. aStar rows cols start_p end_p walls = Some res \<and> found_result res dT vis
     \<and> (\<forall>n \<in> set vis. n = end_p \<or> (\<exists>k. walk (edge rows cols walls) start_p n k \<and> k < dT))"
  unfolding aStar_def
proof (rule aStar_loop_finds[OF _ _ _ assms])
  let ?h = "manhattanDistance start_p end_p"
  let ?s = "\<lparr>a_gScore = [start_p \<mapsto> 0], a_fScore = [start_p \<mapsto> ?h],
        a_previous = Map.empty, a_visited = [],
        a_openSet = enqueue start_p ?h [],
        a_steps = [(new_step Init)\<lparr>start := Some start_p, end_pos := Some end_p,
                     heuristic := Some ?h\<rparr>]\<rparr>"
  have q: "enqueue start_p ?h [] = [(start_p, ?h)]" by (simp add: enqueue_def pq_sort_def)
  show "a_inv rows cols walls start_p end_p {} ?s"
    using search_inv_init[of "edge rows cols walls" "\<lambda>n. manhattanDistance n end_p" start_p]
    by (simp add: a_inv_def q)
  show "start_p \<in> set (a_visited ?s) \<or> a_visited ?s = [] \<and> a_openSet ?s = [(start_p, ?h)]"
    by (simp add: q)
  show "distinct (a_visited ?s)" by simp
  show "end_p \<notin> set (a_visited ?s)" by simp
  show "\<forall>n \<in> set (a_visited ?s). \<exists>d. is_dist (edge rows cols walls) start_p n d
           \<and> int d + manhattanDistance n end_p \<le> int dT" by simp
qed

text \<open>
  Claim C2. When a path from start to goal exists, \<open>dijkstra\<close> and \<open>aStar\<close> both end with a
  \<open>path-found\<close> step; the two steps report the same distance and paths of the same
  length, and the visited set of the \<open>aStar\<close> step is no larger than that of the
  \<open>dijkstra\<close> step.
\<close>

theorem dijkstra_aStar_same_length:
  assumes "end_p \<in> reachable rows cols walls start_p"
  shows "\<exists>rd ra. dijkstra rows cols start_p end_p walls = Some rd
      \<and> aStar rows cols start_p end_p walls = Some ra
      \<and> type (last rd) = PathFound \<and> type (last ra) = PathFound
      \<and> distance (last rd) \<noteq> None \<and> distance (last rd) = distance (last ra)
      \<and> path (last rd) \<noteq> None
      \<and> map_option length (path (last rd)) = map_option length (path (last ra))
      \<and> visited_size (last ra) \<le> visited_size (last rd)"
proof -
  let ?E = "edge rows cols walls"
  obtain k where "walk ?E start_p end_p k" using reachable_walk[OF assms] by blast
  then obtain dT where dT: "is_dist ?E start_p end_p dT"
    using is_dist_exists[of ?E start_p end_p k] by blast
  obtain rd vd where d: "dijkstra rows cols start_p end_p walls = Some rd" "found_result rd dT vd"
    "end_p \<in> set vd" "\<forall>n k. walk ?E start_p n k \<and> k < dT \<longrightarrow> n \<in> set vd"
    using dijkstra_finds[OF dT] by blast
  obtain ra va where a: "aStar rows cols start_p end_p walls = Some ra" "found_result ra dT va"
    "\<forall>n \<in> set va. n = end_p \<or> (\<exists>k. walk ?E start_p n k \<and> k < dT)"
    using aStar_finds[OF dT] by blast
  have "set va \<subseteq> set vd"
  proof
    fix n assume "n \<in> set va"
    then have "n = end_p \<or> (\<exists>k. walk ?E start_p n k \<and> k < dT)" using a(3) by simp
    then show "n \<in> set vd"
    proof
      assume "n = end_p" then show ?thesis using d(3) by simp
    next
      assume "\<exists>k. walk ?E start_p n k \<and> k < dT"
      then obtain k where "walk ?E start_p n k \<and> k < dT" ..
      then show ?thesis using d(4) by meson
    qed
  qed
  then have "card (set va) \<le> card (set vd)" by (intro card_mono) simp_all
  moreover have "distinct va" "distinct vd" "visited (last ra) = Some va" "visited (last rd) = Some vd"
    using a(2) d(2) by (simp_all add: found_result_def)
  ultimately have "visited_size (last ra) \<le> visited_size (last rd)"
    by (simp add: visited_size_def distinct_card)
  moreover obtain pd pa where "path (last rd) = Some pd" "length pd = dT + 1"
    "path (last ra) = Some pa" "length pa = dT + 1"
    using a(2) d(2) unfolding found_result_def by blast
  ultimately show ?thesis using a(1,2) d(1,2) by (auto simp: found_result_def)
qed

lemma two_by_two_reachable: "(1, 1) \<in> reachable 2 2 {(0, 1)} (0, 0)"
proof -
  have "(1, 0) \<in> reachable 2 2 {(0, 1)} (0, 0)"
    by (rule reach_step[OF reach_start]) (simp_all add: getNeighbors_def directions_def row_def col_def)
  then show ?thesis
    by (rule reach_step) (simp_all add: getNeighbors_def directions_def row_def col_def)
qed

theorem dijkstra_aStar_same_length_witness:
  "(1, 1) \<in> reachable 2 2 {(0, 1)} (0, 0)
   \<and> (\<exists>rd ra. dijkstra 2 2 (0, 0) (1, 1) {(0, 1)} = Some rd
      \<and> aStar 2 2 (0, 0) (1, 1) {(0, 1)} = Some ra
      \<and> type (last rd) = PathFound \<and> type (last ra) = PathFound
      \<and> distance (last rd) = distance (last ra)
      \<and> map_option length (path (last rd)) = map_option length (path (last ra))
      \<and> visited_size (last ra) \<le> visited_size (last rd))"
  using dijkstra_aStar_same_length [OF two_by_two_reachable] two_by_two_reachable by blast

end
